theory Spec2Isabelle
  imports Complex_Main "HOL-Library.AList" "HOL-Library.Char_ord" "HOL-Library.List_Lexorder"
begin

section \<open>Terrain reference data (models/terrain.ts)\<close>

text \<open>
  The terrain enum is a datatype; a terrain definition keeps the fields the engine reads
  (movement cost, defense bonus, food yield and the two passability flags). The lookup
  \<open>TERRAIN_DEFS\<close> returns an option so that the source's \<open>if (!def)\<close> branches
  stay visible in the model. JavaScript numbers that hold integers (coordinates, movement
  costs, hit points) are \<open>int\<close>; fractional quantities (defense bonuses, random
  factors) are \<open>real\<close>.
\<close>

datatype TerrainType =
    Farmland
  | CultivatedFarmland
  | GrasslandPoor
  | GrasslandPoorBis
  | Grassland
  | GrazingLand
  | LightForest
  | HeavyForest
  | ForestedHills
  | ForestedMountains
  | EveregreenMountains
  | HeavyEvergreen
  | GrassyHills
  | Hills
  | Mountains
  | SnowcappedMountains
  | DormantVolcano
  | Volcano
  | Swamp
  | Marsh
  | Moss
  | Snow
  | SnowField
  | EveregreenMountainsIcy
  | MountainsIcy
  | DeadForestMountainsIcy
  | Glaceland
  | IcyMarsh
  | DeadForest
  | DeadForestHills
  | DeadFields
  | BrokenLands
  | RockyDesert
  | SandyDesert
  | Oasis
  | SandDunes
  | HeavyCactus
  | Jungle
  | JungleHills
  | Sea
  | DeepSea
  | Reefs
  | ReefsBis
  | Lava

record TerrainDefinition =
  movementCost :: int
  defenseBonus :: real
  foodProduction :: int
  isPassable :: bool
  isNavalPassable :: bool

definition mkTerrain :: "int \<Rightarrow> real \<Rightarrow> int \<Rightarrow> bool \<Rightarrow> bool \<Rightarrow> TerrainDefinition" where
  "mkTerrain mc db fp p np =
     \<lparr>movementCost = mc, defenseBonus = db, foodProduction = fp, isPassable = p, isNavalPassable = np\<rparr>"

fun TERRAIN_DEFS :: "TerrainType \<Rightarrow> TerrainDefinition option" where
  "TERRAIN_DEFS Farmland = Some (mkTerrain 1 1.0 3 True False)"
| "TERRAIN_DEFS CultivatedFarmland = Some (mkTerrain 1 1.0 5 True False)"
| "TERRAIN_DEFS GrasslandPoor = Some (mkTerrain 1 1.0 1 True False)"
| "TERRAIN_DEFS GrasslandPoorBis = Some (mkTerrain 1 1.0 1 True False)"
| "TERRAIN_DEFS Grassland = Some (mkTerrain 1 1.0 2 True False)"
| "TERRAIN_DEFS GrazingLand = Some (mkTerrain 1 1.0 2 True False)"
| "TERRAIN_DEFS LightForest = Some (mkTerrain 2 1.2 1 True False)"
| "TERRAIN_DEFS HeavyForest = Some (mkTerrain 3 1.3 1 True False)"
| "TERRAIN_DEFS ForestedHills = Some (mkTerrain 3 1.4 0 True False)"
| "TERRAIN_DEFS ForestedMountains = Some (mkTerrain 4 1.5 0 True False)"
| "TERRAIN_DEFS EveregreenMountains = Some (mkTerrain 4 1.5 0 True False)"
| "TERRAIN_DEFS HeavyEvergreen = Some (mkTerrain 3 1.3 0 True False)"
| "TERRAIN_DEFS GrassyHills = Some (mkTerrain 2 1.3 1 True False)"
| "TERRAIN_DEFS Hills = Some (mkTerrain 2 1.3 0 True False)"
| "TERRAIN_DEFS Mountains = Some (mkTerrain 4 1.5 0 True False)"
| "TERRAIN_DEFS SnowcappedMountains = Some (mkTerrain 5 1.5 0 True False)"
| "TERRAIN_DEFS DormantVolcano = Some (mkTerrain 5 1.4 0 True False)"
| "TERRAIN_DEFS Volcano = Some (mkTerrain 99 1.0 0 False False)"
| "TERRAIN_DEFS Swamp = Some (mkTerrain 3 0.9 0 True False)"
| "TERRAIN_DEFS Marsh = Some (mkTerrain 3 0.9 0 True False)"
| "TERRAIN_DEFS Moss = Some (mkTerrain 2 1.0 0 True False)"
| "TERRAIN_DEFS Snow = Some (mkTerrain 2 1.0 0 True False)"
| "TERRAIN_DEFS SnowField = Some (mkTerrain 2 1.0 0 True False)"
| "TERRAIN_DEFS EveregreenMountainsIcy = Some (mkTerrain 5 1.5 0 True False)"
| "TERRAIN_DEFS MountainsIcy = Some (mkTerrain 5 1.5 0 True False)"
| "TERRAIN_DEFS DeadForestMountainsIcy = Some (mkTerrain 5 1.4 0 True False)"
| "TERRAIN_DEFS Glaceland = Some (mkTerrain 3 1.1 0 True False)"
| "TERRAIN_DEFS IcyMarsh = Some (mkTerrain 3 0.9 0 True False)"
| "TERRAIN_DEFS DeadForest = Some (mkTerrain 2 1.1 0 True False)"
| "TERRAIN_DEFS DeadForestHills = Some (mkTerrain 3 1.3 0 True False)"
| "TERRAIN_DEFS DeadFields = Some (mkTerrain 1 1.0 0 True False)"
| "TERRAIN_DEFS BrokenLands = Some (mkTerrain 3 1.1 0 True False)"
| "TERRAIN_DEFS RockyDesert = Some (mkTerrain 2 1.1 0 True False)"
| "TERRAIN_DEFS SandyDesert = Some (mkTerrain 2 0.9 0 True False)"
| "TERRAIN_DEFS Oasis = Some (mkTerrain 1 1.0 2 True False)"
| "TERRAIN_DEFS SandDunes = Some (mkTerrain 3 0.8 0 True False)"
| "TERRAIN_DEFS HeavyCactus = Some (mkTerrain 2 1.1 0 True False)"
| "TERRAIN_DEFS Jungle = Some (mkTerrain 3 1.3 1 True False)"
| "TERRAIN_DEFS JungleHills = Some (mkTerrain 4 1.4 0 True False)"
| "TERRAIN_DEFS Sea = Some (mkTerrain 1 1.0 1 False True)"
| "TERRAIN_DEFS DeepSea = Some (mkTerrain 1 1.0 0 False True)"
| "TERRAIN_DEFS Reefs = Some (mkTerrain 2 1.2 1 False True)"
| "TERRAIN_DEFS ReefsBis = Some (mkTerrain 2 1.2 1 False True)"
| "TERRAIN_DEFS Lava = Some (mkTerrain 99 0.5 0 False False)"
definition ROAD_movementCostOverride :: int where
  "ROAD_movementCostOverride = 1"

definition RIVER_defenseBonus :: real where
  "RIVER_defenseBonus = 0.1"

section \<open>Tiles and the tile grid (engine/map/MapEngine.ts)\<close>

record Tile =
  t_x :: int
  t_y :: int
  terrain :: TerrainType
  river :: bool
  road :: bool
  t_ownerId :: "string option"

text \<open>
  The grid's private \<open>Map<string, Tile>\<close> is an association list in insertion order.
  Its string key \<open>`${x},${y}`\<close> is injective on integer coordinates and is modelled by
  the pair itself.
\<close>

type_synonym key = "int \<times> int"

record TileGrid =
  width :: int
  height :: int
  tiles :: "(key \<times> Tile) list"

definition key :: "int \<Rightarrow> int \<Rightarrow> key" where
  "key kx ky = (kx, ky)"

definition newTileGrid :: "int \<Rightarrow> int \<Rightarrow> TileGrid" where
  "newTileGrid w h = \<lparr>width = w, height = h, tiles = []\<rparr>"

definition getTile :: "TileGrid \<Rightarrow> int \<Rightarrow> int \<Rightarrow> Tile option" where
  "getTile grid gx gy = map_of (tiles grid) (key gx gy)"

definition setTile :: "TileGrid \<Rightarrow> Tile \<Rightarrow> TileGrid" where
  "setTile grid tile = grid\<lparr>tiles := AList.update (key (t_x tile) (t_y tile)) tile (tiles grid)\<rparr>"

definition isInBounds :: "TileGrid \<Rightarrow> int \<Rightarrow> int \<Rightarrow> bool" where
  "isInBounds grid px py \<longleftrightarrow> px \<ge> 0 \<and> px < width grid \<and> py \<ge> 0 \<and> py < height grid"

definition dirs8 :: "(int \<times> int) list" where
  "dirs8 = [(0, -1), (0, 1), (-1, 0), (1, 0), (-1, -1), (1, -1), (-1, 1), (1, 1)]"

definition getNeighbors :: "TileGrid \<Rightarrow> int \<Rightarrow> int \<Rightarrow> Tile list" where
  "getNeighbors grid gx gy =
     concat (map (\<lambda>(dx, dy).
        let nx = gx + dx; ny = gy + dy in
        if isInBounds grid nx ny
        then (case getTile grid nx ny of Some t \<Rightarrow> [t] | None \<Rightarrow> [])
        else []) dirs8)"

definition getMovementCost :: "Tile \<Rightarrow> int" where
  "getMovementCost tile =
     (case TERRAIN_DEFS (terrain tile) of
        None \<Rightarrow> 99
      | Some def \<Rightarrow> if road tile then ROAD_movementCostOverride else movementCost def)"

definition getDefenseBonus :: "Tile \<Rightarrow> real" where
  "getDefenseBonus tile =
     (case TERRAIN_DEFS (terrain tile) of
        None \<Rightarrow> 1.0
      | Some def \<Rightarrow> if river tile then defenseBonus def + RIVER_defenseBonus else defenseBonus def)"


text \<open>
  A thrown JavaScript \<open>Error\<close> is the left injection of a sum; the string is the
  message.
\<close>

datatype error = Error string

datatype Direction = North | South | East | West

definition shrinkDims :: "TileGrid \<Rightarrow> Direction \<Rightarrow> int \<Rightarrow> int \<times> int \<times> int \<times> int" where
  "shrinkDims grid direction amount =
     (case direction of
        North \<Rightarrow> (width grid, height grid - amount, 0, - amount)
      | South \<Rightarrow> (width grid, height grid - amount, 0, 0)
      | East \<Rightarrow> (width grid - amount, height grid, 0, 0)
      | West \<Rightarrow> (width grid - amount, height grid, - amount, 0))"

definition shrink :: "TileGrid \<Rightarrow> Direction \<Rightarrow> int \<Rightarrow> error + TileGrid" where
  "shrink grid direction amount =
     (case shrinkDims grid direction amount of (newWidth, newHeight, offsetX, offsetY) \<Rightarrow>
        if newWidth \<le> 0 \<or> newHeight \<le> 0
        then Inl (Error ''Cannot shrink map below 1x1'')
        else Inr (fold (\<lambda>tile newGrid.
               let nx = t_x tile + offsetX; ny = t_y tile + offsetY in
               if nx \<ge> 0 \<and> nx < newWidth \<and> ny \<ge> 0 \<and> ny < newHeight
               then setTile newGrid (tile\<lparr>t_x := nx, t_y := ny\<rparr>)
               else newGrid)
             (map snd (tiles grid)) (newTileGrid newWidth newHeight)))"

definition throws :: "error + 'a \<Rightarrow> bool" where
  "throws r = (case r of Inl _ \<Rightarrow> True | Inr _ \<Rightarrow> False)"

section \<open>Units (models/units.ts)\<close>

datatype UnitCategory = Civil | Military | Naval | Siege | Special

record UnitStats =
  hp :: int
  attack :: int
  defense :: int
  movement :: int
  u_range :: int
  sight :: int

record UnitType =
  category :: UnitCategory
  stats :: UnitStats
  canReproduce :: bool
  reproductionChance :: real

definition mkUnitType ::
  "UnitCategory \<Rightarrow> int \<Rightarrow> int \<Rightarrow> int \<Rightarrow> int \<Rightarrow> int \<Rightarrow> int \<Rightarrow> bool \<Rightarrow> real \<Rightarrow> UnitType" where
  "mkUnitType c h a d m r s cr rc =
     \<lparr>category = c,
      stats = \<lparr>hp = h, attack = a, defense = d, movement = m, u_range = r, sight = s\<rparr>,
      canReproduce = cr, reproductionChance = rc\<rparr>"

definition UNIT_TYPES_table :: "(string \<times> UnitType) list" where
  "UNIT_TYPES_table =
    [(''peasant'', mkUnitType Civil 10 1 1 2 1 2 True 0.15),
     (''lumberjack'', mkUnitType Civil 12 2 1 2 1 2 True 0.10),
     (''miner'', mkUnitType Civil 14 2 2 2 1 1 True 0.08),
     (''farmer'', mkUnitType Civil 10 1 1 2 1 2 True 0.12),
     (''fisherman'', mkUnitType Civil 10 1 1 2 1 2 True 0.10),
     (''artisan'', mkUnitType Civil 10 1 1 2 1 2 True 0.05),
     (''militia'', mkUnitType Military 15 3 3 3 1 2 False 0),
     (''man_at_arms'', mkUnitType Military 25 6 5 3 1 2 False 0),
     (''archer'', mkUnitType Military 15 5 2 3 2 3 False 0),
     (''cavalry'', mkUnitType Military 20 7 4 5 1 3 False 0),
     (''knight'', mkUnitType Military 35 10 8 4 1 2 False 0),
     (''spearman'', mkUnitType Military 20 5 6 3 1 2 False 0),
     (''scout'', mkUnitType Military 12 3 2 6 1 5 False 0),
     (''battering_ram'', mkUnitType Siege 30 15 2 2 1 1 False 0),
     (''catapult'', mkUnitType Siege 20 12 1 1 3 2 False 0),
     (''boat'', mkUnitType Naval 15 2 2 4 1 3 False 0),
     (''warship'', mkUnitType Naval 40 10 6 3 2 3 False 0),
     (''chaplain'', mkUnitType Special 12 1 2 3 1 2 False 0),
     (''merchant'', mkUnitType Special 10 0 1 3 1 2 False 0),
     (''herald'', mkUnitType Special 8 0 1 5 1 4 False 0)]"

definition UNIT_TYPES :: "string \<Rightarrow> UnitType option" where
  "UNIT_TYPES typeId = map_of UNIT_TYPES_table typeId"

record UnitInstance =
  u_id :: string
  typeId :: string
  u_ownerId :: string
  u_x :: int
  u_y :: int
  currentHp :: int
  armyId :: "string option"
  isAlive :: bool
  hasMoved :: bool
  hasActed :: bool
  createdTurn :: int

section \<open>Resources (models/resources.ts)\<close>

datatype ResourceType =
    Dricks | Wood | Stone | Iron | Coal | Gems | Grain | Fish | Leather | Wool | Fruit
  | Planks | Tools | Weapons | Jewelry | Cloth

text \<open>
  A \<open>ResourceMap\<close> is a partial record over the resource enum: a partial map. The
  idiom \<open>(m[k] || 0)\<close> reads an absent entry as zero.
\<close>

type_synonym ResourceMap = "ResourceType \<rightharpoonup> int"

definition ResourceType_values :: "ResourceType list" where
  "ResourceType_values =
     [Dricks, Wood, Stone, Iron, Coal, Gems, Grain, Fish, Leather, Wool, Fruit,
      Planks, Tools, Weapons, Jewelry, Cloth]"

definition orZero :: "int option \<Rightarrow> int" where
  "orZero v = (case v of None \<Rightarrow> 0 | Some n \<Rightarrow> n)"

definition entries :: "ResourceMap \<Rightarrow> (ResourceType \<times> int) list" where
  "entries b = concat (map (\<lambda>k. case b k of None \<Rightarrow> [] | Some v \<Rightarrow> [(k, v)]) ResourceType_values)"

definition addResources :: "ResourceMap \<Rightarrow> ResourceMap \<Rightarrow> ResourceMap" where
  "addResources a b = fold (\<lambda>(k, val) a. a(k \<mapsto> orZero (a k) + val)) (entries b) a"

section \<open>Applying a production report (EconomyEngine.executeProduction)\<close>

record Player =
  p_id :: string
  p_name :: string
  factionId :: string
  allianceId :: "string option"
  resources :: ResourceMap
  turnsAccumulated :: int
  turnPlayed :: bool
  isReady :: bool
  lastLoginAt :: int

text \<open>
  Of a production report the engine reads back the net deltas and the warnings; the
  \<open>gains\<close> and \<open>losses\<close> lists are display data and are left out.
\<close>

record ProductionReport =
  r_playerId :: string
  r_turn :: int
  netResources :: ResourceMap
  warnings :: "string list"

record ProductionResult =
  newResources :: ResourceMap
  desertedUnits :: "string list"

definition executeProduction :: "Player \<Rightarrow> ProductionReport \<Rightarrow> ProductionResult" where
  "executeProduction player report =
     (let newResources0 = addResources (resources player) (netResources report);
          newResources1 = fold (\<lambda>k nr. if orZero (nr k) < 0 then nr(k \<mapsto> 0) else nr)
                            ResourceType_values newResources0
      in \<lparr>newResources = newResources1, desertedUnits = []\<rparr>)"

text \<open>The example of Scenario C: no grain in the pool, a net grain delta of -5.\<close>

definition scenarioC_player :: Player where
  "scenarioC_player =
     \<lparr>p_id = ''p1'', p_name = ''P'', factionId = ''yanovie'', allianceId = None,
      resources = [Grain \<mapsto> 0], turnsAccumulated = 0, turnPlayed = False,
      isReady = True, lastLoginAt = 0\<rparr>"

definition scenarioC_report :: ProductionReport where
  "scenarioC_report =
     \<lparr>r_playerId = ''p1'', r_turn = 10, netResources = [Grain \<mapsto> - 5], warnings = []\<rparr>"

section \<open>Sources of non-determinism\<close>

text \<open>
  \<open>Math.random()\<close>, \<open>uuid()\<close> and \<open>Date.now()\<close> read the outside world. They
  are modelled as three infinite streams carried in an explicit state; each call returns the
  head of its stream and advances it.
\<close>

record Sys =
  randoms :: "nat \<Rightarrow> real"
  uuids :: "nat \<Rightarrow> string"
  clock :: "nat \<Rightarrow> int"

definition Math_random :: "Sys \<Rightarrow> real \<times> Sys" where
  "Math_random sys = (randoms sys 0, sys\<lparr>randoms := (\<lambda>n. randoms sys (Suc n))\<rparr>)"

definition uuid :: "Sys \<Rightarrow> string \<times> Sys" where
  "uuid sys = (uuids sys 0, sys\<lparr>uuids := (\<lambda>n. uuids sys (Suc n))\<rparr>)"

definition Date_now :: "Sys \<Rightarrow> int \<times> Sys" where
  "Date_now sys = (clock sys 0, sys\<lparr>clock := (\<lambda>n. clock sys (Suc n))\<rparr>)"

text \<open>\<open>Math.round\<close> rounds to the nearest integer, halves towards plus infinity.\<close>

definition Math_round :: "real \<Rightarrow> int" where
  "Math_round v = \<lfloor>v + 1 / 2\<rfloor>"

section \<open>Combat (engine/combat)\<close>

record CombatLog =
  l_id :: string
  l_turn :: int
  l_attackerId :: string
  l_defenderId :: string
  l_attackerUnitId :: string
  l_defenderUnitId :: string
  l_attackerDamage :: int
  l_defenderDamage :: int
  l_attackerSurvived :: bool
  l_defenderSurvived :: bool
  l_terrainBonus :: real
  l_timestamp :: int

record CombatResult =
  attackerDamage :: int
  defenderDamage :: int
  attackerSurvived :: bool
  defenderSurvived :: bool
  r_log :: CombatLog

definition getDistance :: "Tile \<Rightarrow> Tile \<Rightarrow> int" where
  "getDistance a b = max \<bar>t_x a - t_x b\<bar> \<bar>t_y a - t_y b\<bar>"

definition random_factor :: "Sys \<Rightarrow> real \<times> Sys" where
  "random_factor sys = (case Math_random sys of (r, sys') \<Rightarrow> (0.8 + r * 0.4, sys'))"

definition terrainBonusOf :: "Tile \<Rightarrow> real" where
  "terrainBonusOf tile = (case TERRAIN_DEFS (terrain tile) of None \<Rightarrow> 1.0 | Some def \<Rightarrow> defenseBonus def)"

definition resolve ::
  "UnitInstance \<Rightarrow> UnitInstance \<Rightarrow> Tile \<Rightarrow> Tile \<Rightarrow> int \<Rightarrow> Sys \<Rightarrow> error + (CombatResult \<times> Sys)" where
  "resolve attacker defender attackerTile defenderTile turn sys =
     (case (UNIT_TYPES (typeId attacker), UNIT_TYPES (typeId defender)) of
        (Some attackerType, Some defenderType) \<Rightarrow>
          (let terrainDefenseBonus = terrainBonusOf defenderTile;
               riverPenalty = (if river defenderTile then 0.9 else 1.0);
               (rnd1, sys1) = random_factor sys;
               attackPower = real_of_int (attack (stats attackerType)) * rnd1 * riverPenalty;
               defenseValue = real_of_int (defense (stats defenderType)) * terrainDefenseBonus;
               damageToDefender = max 1 (Math_round (attackPower - defenseValue * 0.5));
               isInRange = (getDistance attackerTile defenderTile \<le> u_range (stats defenderType));
               (damageToAttacker, sys2) =
                 (if isInRange
                  then (let (rnd2, sys2) = random_factor sys1;
                            counterPower = real_of_int (attack (stats defenderType)) * rnd2 * 0.7;
                            attackerTerrainBonus = terrainBonusOf attackerTile
                        in (max 0 (Math_round (counterPower
                              - real_of_int (defense (stats attackerType)) * attackerTerrainBonus * 0.5)),
                            sys2))
                  else (0, sys1));
               newDefenderHp = currentHp defender - damageToDefender;
               newAttackerHp = currentHp attacker - damageToAttacker;
               (logId, sys3) = uuid sys2;
               (now, sys4) = Date_now sys3;
               lg = \<lparr>l_id = logId, l_turn = turn,
                      l_attackerId = u_ownerId attacker, l_defenderId = u_ownerId defender,
                      l_attackerUnitId = u_id attacker, l_defenderUnitId = u_id defender,
                      l_attackerDamage = damageToAttacker, l_defenderDamage = damageToDefender,
                      l_attackerSurvived = (newAttackerHp > 0),
                      l_defenderSurvived = (newDefenderHp > 0),
                      l_terrainBonus = terrainDefenseBonus, l_timestamp = now\<rparr>
           in Inr (\<lparr>attackerDamage = damageToAttacker, defenderDamage = damageToDefender,
                     attackerSurvived = (newAttackerHp > 0),
                     defenderSurvived = (newDefenderHp > 0), r_log = lg\<rparr>, sys4))
      | _ \<Rightarrow> Inl (Error (''Unknown unit type: '' @ typeId attacker @ '' or '' @ typeId defender)))"

definition executeCombat ::
  "UnitInstance \<Rightarrow> UnitInstance \<Rightarrow> Tile \<Rightarrow> Tile \<Rightarrow> int \<Rightarrow> Sys \<Rightarrow> error + (CombatResult \<times> Sys)" where
  "executeCombat attacker defender attackerTile defenderTile turn sys =
     resolve attacker defender attackerTile defenderTile turn sys"

text \<open>
  \<open>applyCombatResult\<close> mutates the two unit objects; the model returns both. The
  attacker and the defender are two different objects.
\<close>

definition applyCombatResult ::
  "UnitInstance \<Rightarrow> UnitInstance \<Rightarrow> CombatResult \<Rightarrow> UnitInstance \<times> UnitInstance" where
  "applyCombatResult attacker defender result =
     (let attacker1 = attacker\<lparr>currentHp := currentHp attacker - attackerDamage result\<rparr>;
          defender1 = defender\<lparr>currentHp := currentHp defender - defenderDamage result\<rparr>;
          attacker2 = (if \<not> attackerSurvived result
                       then attacker1\<lparr>isAlive := False, currentHp := 0\<rparr> else attacker1);
          defender2 = (if \<not> defenderSurvived result
                       then defender1\<lparr>isAlive := False, currentHp := 0\<rparr> else defender1)
      in (attacker2, defender2))"

text \<open>Example inputs: a knight attacks a herald on open grassland, all random draws 1/2.\<close>

definition ex_sys :: Sys where
  "ex_sys = \<lparr>randoms = (\<lambda>n. 1 / 2), uuids = (\<lambda>n. ''id''), clock = (\<lambda>n. 0)\<rparr>"

definition ex_unit :: "string \<Rightarrow> string \<Rightarrow> string \<Rightarrow> int \<Rightarrow> int \<Rightarrow> int \<Rightarrow> bool \<Rightarrow> UnitInstance" where
  "ex_unit uid ty owner ux uy h alive =
     \<lparr>u_id = uid, typeId = ty, u_ownerId = owner, u_x = ux, u_y = uy, currentHp = h,
      armyId = None, isAlive = alive, hasMoved = False, hasActed = False, createdTurn = 0\<rparr>"

definition ex_tile :: "int \<Rightarrow> int \<Rightarrow> TerrainType \<Rightarrow> Tile" where
  "ex_tile ex ey ter = \<lparr>t_x = ex, t_y = ey, terrain = ter, river = False, road = False, t_ownerId = None\<rparr>"

section \<open>Armies (UnitManager.createArmy, CombatManager.resolveArmyCombat)\<close>

record Army =
  a_id :: string
  a_ownerId :: string
  a_name :: string
  unitIds :: "string list"
  a_x :: int
  a_y :: int

text \<open>
  The unit collection is an array of distinct unit objects and is modelled as a list of
  records; stamping \<open>armyId\<close> on every selected object is a map over that list.
\<close>

definition selectable :: "string \<Rightarrow> string list \<Rightarrow> UnitInstance \<Rightarrow> bool" where
  "selectable ownerId ids u \<longleftrightarrow> u_id u \<in> set ids \<and> isAlive u \<and> u_ownerId u = ownerId"

definition createArmy ::
  "string \<Rightarrow> string \<Rightarrow> string list \<Rightarrow> UnitInstance list \<Rightarrow> Sys
     \<Rightarrow> Army option \<times> UnitInstance list \<times> Sys" where
  "createArmy name ownerId ids units sys =
     (let selectedUnits = filter (selectable ownerId ids) units in
      case selectedUnits of
        [] \<Rightarrow> (None, units, sys)
      | first # _ \<Rightarrow>
          (let px = u_x first; py = u_y first in
           if \<not> list_all (\<lambda>u. u_x u = px \<and> u_y u = py) selectedUnits
           then (None, units, sys)
           else (let (newId, sys') = uuid sys;
                     army = \<lparr>a_id = newId, a_ownerId = ownerId, a_name = name,
                             unitIds = map u_id selectedUnits, a_x = px, a_y = py\<rparr>
                 in (Some army,
                     map (\<lambda>u. if selectable ownerId ids u then u\<lparr>armyId := Some newId\<rparr> else u) units,
                     sys'))))"

text \<open>
  \<open>resolveArmyCombat\<close>: the two filtered arrays hold references to the unit objects, so
  a unit killed in one encounter is seen dead by the next; the model carries both arrays
  through the loop and writes the fought units back at their index. The two sides are
  assumed to share no unit object. For an empty defender array the index \<open>i % 0\<close> is
  \<open>NaN\<close>, the lookup yields \<open>undefined\<close> and the attacker is skipped.
\<close>

function armyLoop ::
  "nat \<Rightarrow> UnitInstance list \<Rightarrow> UnitInstance list \<Rightarrow> Tile \<Rightarrow> Tile \<Rightarrow> int \<Rightarrow> Sys
     \<Rightarrow> CombatResult list
     \<Rightarrow> error + (CombatResult list \<times> UnitInstance list \<times> UnitInstance list \<times> Sys)" where
  "armyLoop i aliveAttackers aliveDefenders attackerTile defenderTile turn sys results =
     (if i < length aliveAttackers then
        (let attacker = aliveAttackers ! i in
         if aliveDefenders = []
         then armyLoop (i + 1) aliveAttackers aliveDefenders attackerTile defenderTile turn sys results
         else
           (let defenderIndex = i mod length aliveDefenders;
                defender = aliveDefenders ! defenderIndex in
            if \<not> isAlive defender
            then armyLoop (i + 1) aliveAttackers aliveDefenders attackerTile defenderTile turn sys results
            else
              (case executeCombat attacker defender attackerTile defenderTile turn sys of
                 Inl e \<Rightarrow> Inl e
               | Inr (result, sys') \<Rightarrow>
                   (let (attacker', defender') = applyCombatResult attacker defender result;
                        aliveAttackers' = aliveAttackers[i := attacker'];
                        aliveDefenders' = aliveDefenders[defenderIndex := defender'];
                        results' = results @ [result];
                        stillAlive = filter isAlive aliveDefenders'
                    in if stillAlive = []
                       then Inr (results', aliveAttackers', aliveDefenders', sys')
                       else armyLoop (i + 1) aliveAttackers' aliveDefenders'
                              attackerTile defenderTile turn sys' results'))))
      else Inr (results, aliveAttackers, aliveDefenders, sys))"
  by pat_completeness auto
termination
  by (relation "measure (\<lambda>(i, aliveAttackers, _). length aliveAttackers - i)") auto

declare armyLoop.simps [simp del]

definition resolveArmyCombat ::
  "UnitInstance list \<Rightarrow> UnitInstance list \<Rightarrow> Tile \<Rightarrow> Tile \<Rightarrow> int \<Rightarrow> Sys
     \<Rightarrow> error + (CombatResult list \<times> UnitInstance list \<times> UnitInstance list \<times> Sys)" where
  "resolveArmyCombat attackerUnits defenderUnits attackerTile defenderTile turn sys =
     armyLoop 0 (filter isAlive attackerUnits) (filter isAlive defenderUnits)
       attackerTile defenderTile turn sys []"

text \<open>
  The pairing as the specification words it: the defender is picked by the attacker's
  index modulo the number of defenders that are alive at that moment, among those
  survivors.
\<close>

function armyLoop_spec ::
  "nat \<Rightarrow> UnitInstance list \<Rightarrow> UnitInstance list \<Rightarrow> Tile \<Rightarrow> Tile \<Rightarrow> int \<Rightarrow> Sys
     \<Rightarrow> CombatResult list
     \<Rightarrow> error + (CombatResult list \<times> UnitInstance list \<times> UnitInstance list \<times> Sys)" where
  "armyLoop_spec i aliveAttackers defenders attackerTile defenderTile turn sys results =
     (if i < length aliveAttackers then
        (let attacker = aliveAttackers ! i;
             survivors = filter (\<lambda>j. isAlive (defenders ! j)) [0..<length defenders] in
         if survivors = []
         then Inr (results, aliveAttackers, defenders, sys)
         else
           (let defenderIndex = survivors ! (i mod length survivors);
                defender = defenders ! defenderIndex in
            case executeCombat attacker defender attackerTile defenderTile turn sys of
              Inl e \<Rightarrow> Inl e
            | Inr (result, sys') \<Rightarrow>
                (let (attacker', defender') = applyCombatResult attacker defender result
                 in armyLoop_spec (i + 1) (aliveAttackers[i := attacker'])
                      (defenders[defenderIndex := defender'])
                      attackerTile defenderTile turn sys' (results @ [result]))))
      else Inr (results, aliveAttackers, defenders, sys))"
  by pat_completeness auto
termination
  by (relation "measure (\<lambda>(i, aliveAttackers, _). length aliveAttackers - i)") auto

declare armyLoop_spec.simps [simp del]

definition resolveArmyCombat_spec ::
  "UnitInstance list \<Rightarrow> UnitInstance list \<Rightarrow> Tile \<Rightarrow> Tile \<Rightarrow> int \<Rightarrow> Sys
     \<Rightarrow> error + (CombatResult list \<times> UnitInstance list \<times> UnitInstance list \<times> Sys)" where
  "resolveArmyCombat_spec attackerUnits defenderUnits attackerTile defenderTile turn sys =
     armyLoop_spec 0 (filter isAlive attackerUnits) (filter isAlive defenderUnits)
       attackerTile defenderTile turn sys []"

text \<open>
  What a caller observes of a run: the pairs of unit ids that fought, in order, and the
  identity, life flag and hit points of every unit of the two arrays afterwards.
\<close>

definition pairing :: "CombatResult list \<Rightarrow> (string \<times> string) list" where
  "pairing results = map (\<lambda>r. (l_attackerUnitId (r_log r), l_defenderUnitId (r_log r))) results"

definition summary :: "UnitInstance \<Rightarrow> string \<times> bool \<times> int" where
  "summary u = (u_id u, isAlive u, currentHp u)"

definition army_outcome ::
  "error + (CombatResult list \<times> UnitInstance list \<times> UnitInstance list \<times> Sys)
     \<Rightarrow> ((string \<times> string) list \<times> (string \<times> bool \<times> int) list
          \<times> (string \<times> bool \<times> int) list) option" where
  "army_outcome r =
     (case r of
        Inl _ \<Rightarrow> None
      | Inr (rs, attackers, defenders, _) \<Rightarrow>
          Some (pairing rs, map summary attackers, map summary defenders))"

text \<open>Three attackers against two defenders; the first encounter kills its defender.\<close>

definition ex_attackers :: "UnitInstance list" where
  "ex_attackers =
     [ex_unit ''a0'' ''knight'' ''p1'' 0 0 35 True,
      ex_unit ''a1'' ''knight'' ''p1'' 0 0 35 True,
      ex_unit ''a2'' ''knight'' ''p1'' 0 0 35 True]"

definition ex_defenders :: "UnitInstance list" where
  "ex_defenders =
     [ex_unit ''d0'' ''herald'' ''p2'' 1 0 8 True,
      ex_unit ''d1'' ''herald'' ''p2'' 1 0 40 True]"

text \<open>Two named units on one tile, the second of them dead.\<close>

definition ex_army_units :: "UnitInstance list" where
  "ex_army_units =
     [ex_unit ''u1'' ''knight'' ''p1'' 0 0 35 True,
      ex_unit ''u2'' ''knight'' ''p1'' 0 0 0 False]"

definition ex_army :: Army where
  "ex_army = \<lparr>a_id = ''id'', a_ownerId = ''p1'', a_name = ''A'', unitIds = [''u1''], a_x = 0, a_y = 0\<rparr>"

definition ex_army_units_after :: "UnitInstance list" where
  "ex_army_units_after =
     [(ex_unit ''u1'' ''knight'' ''p1'' 0 0 35 True)\<lparr>armyId := Some ''id''\<rparr>,
      ex_unit ''u2'' ''knight'' ''p1'' 0 0 0 False]"

section \<open>Pathfinding (findPath, getReachableTiles)\<close>

datatype PathNode =
  PathNode (n_x: int) (n_y: int) (n_g: int) (n_h: int) (n_f: int) (n_parent: "PathNode option")

record PathResult =
  path :: "(int \<times> int) list"
  totalCost :: int
  reachable :: bool

text \<open>
  The movement budget is a JavaScript number whose default is \<open>Infinity\<close>:
  \<open>None\<close> stands for \<open>Infinity\<close>, and \<open>exceeds c b\<close> is the test \<open>c > b\<close>.
\<close>

definition exceeds :: "int \<Rightarrow> int option \<Rightarrow> bool" where
  "exceeds c maxMovement = (case maxMovement of None \<Rightarrow> False | Some b \<Rightarrow> c > b)"

definition heuristic :: "int \<Rightarrow> int \<Rightarrow> int \<Rightarrow> int \<Rightarrow> int" where
  "heuristic endX endY hx hy = max \<bar>hx - endX\<bar> \<bar>hy - endY\<bar>"

text \<open>
  The passability test both searches apply to a neighbour: its terrain has a definition
  and is passable for the requested domain.
\<close>

definition enterable :: "bool \<Rightarrow> Tile \<Rightarrow> bool" where
  "enterable isNaval neighbor =
     (case TERRAIN_DEFS (terrain neighbor) of
        None \<Rightarrow> False
      | Some terrainDef \<Rightarrow>
          \<not> (isNaval \<and> \<not> isNavalPassable terrainDef) \<and> \<not> (\<not> isNaval \<and> \<not> isPassable terrainDef))"

text \<open>The scan of the open set for the node of lowest \<open>f\<close>; the first one found wins ties.\<close>

definition lowestF :: "(key \<times> PathNode) list \<Rightarrow> PathNode option" where
  "lowestF openSet =
     fold (\<lambda>(k, node) current.
             case current of
               None \<Rightarrow> Some node
             | Some c \<Rightarrow> if n_f node < n_f c then Some node else Some c)
          openSet None"

fun reconstruct :: "PathNode option \<Rightarrow> (int \<times> int) list \<Rightarrow> (int \<times> int) list" where
  "reconstruct None acc = acc"
| "reconstruct (Some (PathNode nx ny ng nh nf parent)) acc = reconstruct parent ((nx, ny) # acc)"

definition relax ::
  "int \<Rightarrow> int \<Rightarrow> bool \<Rightarrow> int option \<Rightarrow> key set \<Rightarrow> PathNode \<Rightarrow> Tile
     \<Rightarrow> (key \<times> PathNode) list \<Rightarrow> (key \<times> PathNode) list" where
  "relax endX endY isNaval maxMovement closedSet current neighbor openSet =
     (let nKey = key (t_x neighbor) (t_y neighbor) in
      if nKey \<in> closedSet then openSet
      else if \<not> enterable isNaval neighbor then openSet
      else
        (let moveCost = getMovementCost neighbor;
             tentativeG = n_g current + moveCost in
         if exceeds tentativeG maxMovement then openSet
         else
           (case map_of openSet nKey of
              Some existing \<Rightarrow>
                if tentativeG \<ge> n_g existing then openSet
                else (let h = heuristic endX endY (t_x neighbor) (t_y neighbor)
                      in AList.update nKey
                           (PathNode (t_x neighbor) (t_y neighbor) tentativeG h (tentativeG + h)
                              (Some current)) openSet)
            | None \<Rightarrow>
                (let h = heuristic endX endY (t_x neighbor) (t_y neighbor)
                 in AList.update nKey
                      (PathNode (t_x neighbor) (t_y neighbor) tentativeG h (tentativeG + h)
                         (Some current)) openSet))))"

definition noPath :: PathResult where
  "noPath = \<lparr>path = [], totalCost = 0, reachable = False\<rparr>"

text \<open>
  The \<open>while (openSet.size > 0)\<close> loop. A run that never leaves the loop is the value
  \<open>None\<close>; that this does not happen is proved below.
\<close>

partial_function (option) findPath_loop ::
  "TileGrid \<Rightarrow> int \<Rightarrow> int \<Rightarrow> bool \<Rightarrow> int option \<Rightarrow> (key \<times> PathNode) list \<Rightarrow> key set
     \<Rightarrow> PathResult option" where
  "findPath_loop grid endX endY isNaval maxMovement openSet closedSet =
     (if openSet = [] then Some noPath
      else
        (case lowestF openSet of
           None \<Rightarrow> Some noPath
         | Some current \<Rightarrow>
             if n_x current = endX \<and> n_y current = endY
             then Some \<lparr>path = reconstruct (Some current) [], totalCost = n_g current,
                        reachable = True\<rparr>
             else
               findPath_loop grid endX endY isNaval maxMovement
                 (fold (relax endX endY isNaval maxMovement
                          (insert (key (n_x current) (n_y current)) closedSet) current)
                    (getNeighbors grid (n_x current) (n_y current))
                    (AList.delete (key (n_x current) (n_y current)) openSet))
                 (insert (key (n_x current) (n_y current)) closedSet)))"

declare findPath_loop.simps [code]

definition findPath ::
  "TileGrid \<Rightarrow> int \<Rightarrow> int \<Rightarrow> int \<Rightarrow> int \<Rightarrow> bool \<Rightarrow> int option \<Rightarrow> PathResult option" where
  "findPath grid startX startY endX endY isNaval maxMovement =
     (let h0 = heuristic endX endY startX startY;
          startNode = PathNode startX startY 0 h0 h0 None
      in findPath_loop grid endX endY isNaval maxMovement [(key startX startY, startNode)] {})"

record QItem =
  q_x :: int
  q_y :: int
  q_cost :: int

definition relaxReach ::
  "bool \<Rightarrow> int option \<Rightarrow> QItem \<Rightarrow> Tile \<Rightarrow> (key \<times> int) list \<times> QItem list
     \<Rightarrow> (key \<times> int) list \<times> QItem list" where
  "relaxReach isNaval maxMovement current neighbor st =
     (case st of (reachableMap, queue) \<Rightarrow>
        if \<not> enterable isNaval neighbor then (reachableMap, queue)
        else
          (let moveCost = getMovementCost neighbor;
               totalCost = q_cost current + moveCost in
           if exceeds totalCost maxMovement then (reachableMap, queue)
           else
             (let nKey = key (t_x neighbor) (t_y neighbor) in
              case map_of reachableMap nKey of
                Some existing \<Rightarrow>
                  if totalCost < existing
                  then (AList.update nKey totalCost reachableMap,
                        queue @ [\<lparr>q_x = t_x neighbor, q_y = t_y neighbor, q_cost = totalCost\<rparr>])
                  else (reachableMap, queue)
              | None \<Rightarrow>
                  (AList.update nKey totalCost reachableMap,
                   queue @ [\<lparr>q_x = t_x neighbor, q_y = t_y neighbor, q_cost = totalCost\<rparr>]))))"

text \<open>
  The \<open>while (queue.length > 0)\<close> loop: a stable sort by cost, \<open>shift\<close>, then the
  neighbours of the taken item.
\<close>

partial_function (option) reach_loop ::
  "TileGrid \<Rightarrow> bool \<Rightarrow> int option \<Rightarrow> (key \<times> int) list \<Rightarrow> QItem list
     \<Rightarrow> (key \<times> int) list option" where
  "reach_loop grid isNaval maxMovement reachableMap queue =
     (case sort_key q_cost queue of
        [] \<Rightarrow> Some reachableMap
      | current # rest \<Rightarrow>
          (case fold (relaxReach isNaval maxMovement current)
                  (getNeighbors grid (q_x current) (q_y current)) (reachableMap, rest) of
             (reachableMap', queue') \<Rightarrow> reach_loop grid isNaval maxMovement reachableMap' queue'))"

declare reach_loop.simps [code]

definition getReachableTiles ::
  "TileGrid \<Rightarrow> int \<Rightarrow> int \<Rightarrow> int option \<Rightarrow> bool \<Rightarrow> (key \<times> int) list option" where
  "getReachableTiles grid startX startY maxMovement isNaval =
     reach_loop grid isNaval maxMovement [(key startX startY, 0)]
       [\<lparr>q_x = startX, q_y = startY, q_cost = 0\<rparr>]"

text \<open>
  What both searches explore: a walk from the start in which every step enters an
  in-bounds, present, passable neighbour and the accumulated cost stays within the budget.
\<close>

inductive walk :: "TileGrid \<Rightarrow> bool \<Rightarrow> int option \<Rightarrow> key \<Rightarrow> key \<Rightarrow> int \<Rightarrow> bool"
  for grid :: TileGrid and isNaval :: bool and maxMovement :: "int option" and start :: key
  where
    walk_start: "walk grid isNaval maxMovement start start 0"
  | walk_step:
      "walk grid isNaval maxMovement start k c \<Longrightarrow>
       neighbor \<in> set (getNeighbors grid (fst k) (snd k)) \<Longrightarrow>
       enterable isNaval neighbor \<Longrightarrow>
       \<not> exceeds (c + getMovementCost neighbor) maxMovement \<Longrightarrow>
       walk grid isNaval maxMovement start (key (t_x neighbor) (t_y neighbor))
         (c + getMovementCost neighbor)"

text \<open>
  A grid is well formed when every tile is stored under its own coordinates, which is what
  the constructor and \<open>setTile\<close> (the only writers of the private map) maintain.
\<close>

definition wf_grid :: "TileGrid \<Rightarrow> bool" where
  "wf_grid grid \<longleftrightarrow> (\<forall>(k, t) \<in> set (tiles grid). k = key (t_x t) (t_y t))"

text \<open>Scenario A: a 3x3 grid of grassland.\<close>

definition grid3 :: TileGrid where
  "grid3 = fold (\<lambda>(gx, gy) g. setTile g (ex_tile gx gy Grassland))
             [(0, 0), (1, 0), (2, 0), (0, 1), (1, 1), (2, 1), (0, 2), (1, 2), (2, 2)]
             (newTileGrid 3 3)"

section \<open>Valid moves (UnitManager.getValidMoves)\<close>

datatype DiplomacyStatus = Neutral | Allied | Enemy

record DiplomacyRelation =
  playerA :: string
  playerB :: string
  status :: DiplomacyStatus

text \<open>\<open>UnitManager.getRelation\<close>: a player is allied with itself; no record means neutral.\<close>

definition getRelation :: "string \<Rightarrow> string \<Rightarrow> DiplomacyRelation list \<Rightarrow> DiplomacyStatus" where
  "getRelation pA pB relations =
     (if pA = pB then Allied
      else (case List.find (\<lambda>r. (playerA r = pA \<and> playerB r = pB) \<or> (playerA r = pB \<and> playerB r = pA))
                   relations of
              Some rel \<Rightarrow> status rel
            | None \<Rightarrow> Neutral))"

text \<open>
  The body of the loop over the reachable map, split into its parts: the other living
  units on a tile, the alliance test applied to each of them, and the decision to keep the
  tile. Parsing the key string back into two integers is the identity on the pair.
\<close>

definition unitsOnTile :: "UnitInstance \<Rightarrow> UnitInstance list \<Rightarrow> key \<Rightarrow> UnitInstance list" where
  "unitsOnTile unit allUnits k =
     filter (\<lambda>u. isAlive u \<and> u_x u = fst k \<and> u_y u = snd k \<and> u_id u \<noteq> u_id unit) allUnits"

definition isAllied :: "UnitInstance \<Rightarrow> DiplomacyRelation list \<Rightarrow> UnitInstance \<Rightarrow> bool" where
  "isAllied unit relations u \<longleftrightarrow>
     u_ownerId u = u_ownerId unit \<or> getRelation (u_ownerId unit) (u_ownerId u) relations = Allied"

definition keepTile :: "UnitInstance \<Rightarrow> UnitInstance list \<Rightarrow> DiplomacyRelation list \<Rightarrow> key \<Rightarrow> bool" where
  "keepTile unit allUnits relations k =
     (let occupants = unitsOnTile unit allUnits k in
      if occupants = [] then True
      else list_all (isAllied unit relations) occupants \<and> length occupants < 2)"

definition filterReachable ::
  "UnitInstance \<Rightarrow> UnitInstance list \<Rightarrow> DiplomacyRelation list \<Rightarrow> (key \<times> int) list
     \<Rightarrow> (key \<times> int) list" where
  "filterReachable unit allUnits relations reachableMap =
     fold (\<lambda>(k, cost) filtered.
             if keepTile unit allUnits relations k then AList.update k cost filtered else filtered)
          reachableMap []"

definition getValidMoves ::
  "UnitInstance \<Rightarrow> TileGrid \<Rightarrow> UnitInstance list \<Rightarrow> DiplomacyRelation list
     \<Rightarrow> (key \<times> int) list option" where
  "getValidMoves unit grid allUnits relations =
     (if hasMoved unit then Some []
      else
        (case UNIT_TYPES (typeId unit) of
           None \<Rightarrow> Some []
         | Some uType \<Rightarrow>
             (let isNaval = (category uType = Naval) in
              case getReachableTiles grid (u_x unit) (u_y unit) (Some (movement (stats uType))) isNaval of
                None \<Rightarrow> None
              | Some reachableMap \<Rightarrow>
                  Some (AList.delete (key (u_x unit) (u_y unit))
                          (filterReachable unit allUnits relations reachableMap)))))"

text \<open>A knight on the corner of the 3x3 grid, an allied unit next to it, an enemy further on.\<close>

definition ex_mover :: UnitInstance where
  "ex_mover = ex_unit ''m'' ''knight'' ''p1'' 0 0 35 True"

definition ex_others :: "UnitInstance list" where
  "ex_others =
     [ex_mover,
      ex_unit ''f'' ''peasant'' ''p1'' 1 0 10 True,
      ex_unit ''e'' ''knight'' ''p2'' 1 1 35 True]"

text \<open>
  The occupancy rule as the specification words it, for comparison with the loop body
  above. A unit occupies a tile for the moving unit when it is alive, stands on that tile
  and is another unit. Two players are allied when they are the same player or the
  diplomacy relation between them is allied; the relation between two players is the first
  record of the list that names both, in either order (a list that holds one record for
  each pair of players is \<open>single_record\<close>, and then any record naming both is that
  record). A tile admits the moving unit when every occupant belongs to a player allied
  with the unit's owner and fewer than 2 occupants stand on it.
\<close>

definition occupies :: "UnitInstance \<Rightarrow> key \<Rightarrow> UnitInstance \<Rightarrow> bool" where
  "occupies unit k u \<longleftrightarrow> isAlive u \<and> (u_x u, u_y u) = k \<and> u_id u \<noteq> u_id unit"

definition about :: "DiplomacyRelation \<Rightarrow> string \<Rightarrow> string \<Rightarrow> bool" where
  "about r p q \<longleftrightarrow> (playerA r = p \<and> playerB r = q) \<or> (playerA r = q \<and> playerB r = p)"

definition allied_with :: "DiplomacyRelation list \<Rightarrow> string \<Rightarrow> string \<Rightarrow> bool" where
  "allied_with relations p q \<longleftrightarrow>
     p = q \<or> (\<exists>i \<in> {..<length relations}.
                 about (relations ! i) p q \<and> status (relations ! i) = Allied
                 \<and> (\<forall>j \<in> {..<i}. \<not> about (relations ! j) p q))"

definition single_record :: "DiplomacyRelation list \<Rightarrow> bool" where
  "single_record relations \<longleftrightarrow>
     (\<forall>i \<in> {..<length relations}. \<forall>j \<in> {..<i}.
        \<not> about (relations ! i) (playerA (relations ! j)) (playerB (relations ! j)))"

definition admits ::
  "UnitInstance \<Rightarrow> UnitInstance list \<Rightarrow> DiplomacyRelation list \<Rightarrow> key \<Rightarrow> bool" where
  "admits unit allUnits relations k \<longleftrightarrow>
     (\<forall>u \<in> set allUnits. occupies unit k u \<longrightarrow> allied_with relations (u_ownerId unit) (u_ownerId u))
     \<and> length (filter (occupies unit k) allUnits) < 2"

text \<open>
  The knight among more units: an own unit on (1,0), an enemy on (1,1), a unit of an
  allied player on (0,1), two own units on (2,0), a dead enemy on (2,1), a unit of a player
  without any record on (1,2), and on (0,2) a unit of a player for whom an enemy record
  precedes an allied one.
\<close>

definition ex_crowd :: "UnitInstance list" where
  "ex_crowd =
     [ex_mover,
      ex_unit ''f'' ''peasant'' ''p1'' 1 0 10 True,
      ex_unit ''e'' ''knight'' ''p2'' 1 1 35 True,
      ex_unit ''a'' ''knight'' ''p3'' 0 1 35 True,
      ex_unit ''g'' ''peasant'' ''p1'' 2 0 10 True,
      ex_unit ''h'' ''peasant'' ''p1'' 2 0 10 True,
      ex_unit ''x'' ''knight'' ''p2'' 2 1 0 False,
      ex_unit ''n'' ''knight'' ''p4'' 1 2 35 True,
      ex_unit ''c'' ''knight'' ''p5'' 0 2 35 True]"

definition ex_diplomacy :: "DiplomacyRelation list" where
  "ex_diplomacy =
     [\<lparr>playerA = ''p1'', playerB = ''p2'', status = Enemy\<rparr>,
      \<lparr>playerA = ''p3'', playerB = ''p1'', status = Allied\<rparr>,
      \<lparr>playerA = ''p1'', playerB = ''p5'', status = Enemy\<rparr>,
      \<lparr>playerA = ''p5'', playerB = ''p1'', status = Allied\<rparr>]"

section \<open>Turn resolution (engine/turns/TurnEngine.ts)\<close>

record BuildingInstance =
  b_id :: string
  b_typeId :: string
  b_ownerId :: string
  b_x :: int
  b_y :: int
  settlementId :: "string option"
  isConstructed :: bool
  turnsRemaining :: int
  b_createdTurn :: int

datatype SettlementTier = Campfire | Village | Town | City | Capital

record SettlementInstance =
  s_id :: string
  s_ownerId :: string
  s_x :: int
  s_y :: int
  s_name :: string
  tier :: SettlementTier
  buildingIds :: "string list"
  isUpgrading :: bool
  upgradeTurnsRemaining :: int

text \<open>Of the game record the pipeline reads the turn counter and the month length.\<close>

record Game =
  currentTurn :: int
  turnsPerMonth :: int

text \<open>
  A submitted action is a tagged variant; the tag (the \<open>type\<close> field) is the constructor
  and the payload (the \<open>data\<close> field, cast by the pipeline to the shape it expects) its
  arguments. Action kinds the pipeline does not look at are \<open>OtherAction\<close>.
\<close>

datatype ActionPayload =
    MoveAction string int int
  | BuildAction string int int "string option"
  | OtherAction

record TurnAction =
  act_playerId :: string
  act_payload :: ActionPayload

record TurnResolutionResult =
  combatLogs :: "CombatLog list"
  newUnits :: "UnitInstance list"
  updatedUnits :: "UnitInstance list"
  updatedPlayers :: "Player list"
  updatedBuildings :: "BuildingInstance list"
  updatedSettlements :: "SettlementInstance list"
  messages :: "string list"

text \<open>
  Identifiers built from \<open>Date.now()\<close> and \<open>Math.random().toString(36).slice(2)\<close>:
  how the two numbers are printed is a parameter \<open>render\<close> of the pipeline.
\<close>

type_synonym renderer = "int \<Rightarrow> real \<Rightarrow> string"

text \<open>\<open>Array.prototype.find\<close>, returning the position of the first match.\<close>

fun findIndex :: "('a \<Rightarrow> bool) \<Rightarrow> 'a list \<Rightarrow> nat option" where
  "findIndex P [] = None"
| "findIndex P (x # xs) = (if P x then Some 0 else map_option Suc (findIndex P xs))"

definition moveUnit :: "UnitInstance \<Rightarrow> int \<Rightarrow> int \<Rightarrow> UnitInstance" where
  "moveUnit unit targetX targetY = unit\<lparr>u_x := targetX, u_y := targetY, hasMoved := True\<rparr>"

definition resetUnitsForTurn :: "UnitInstance list \<Rightarrow> UnitInstance list" where
  "resetUnitsForTurn units =
     map (\<lambda>unit. if isAlive unit then unit\<lparr>hasMoved := False, hasActed := False\<rparr> else unit) units"

subsection \<open>Phase 1: movement\<close>

definition applyMove :: "TurnAction \<Rightarrow> UnitInstance list \<Rightarrow> UnitInstance list" where
  "applyMove action units =
     (case act_payload action of
        MoveAction unitId targetX targetY \<Rightarrow>
          (case findIndex (\<lambda>u. u_id u = unitId \<and> isAlive u) units of
             Some i \<Rightarrow>
               if u_ownerId (units ! i) = act_playerId action
               then units[i := moveUnit (units ! i) targetX targetY]
               else units
           | None \<Rightarrow> units)
      | _ \<Rightarrow> units)"

definition movePhase :: "TurnAction list \<Rightarrow> UnitInstance list \<Rightarrow> UnitInstance list" where
  "movePhase actions units = fold applyMove actions units"

subsection \<open>Phase 2: automatic combat\<close>

text \<open>\<open>TurnEngine.getRelation\<close>: no record means neutral (also for a player with itself).\<close>

definition getRelation_turn :: "string \<Rightarrow> string \<Rightarrow> DiplomacyRelation list \<Rightarrow> DiplomacyStatus" where
  "getRelation_turn pA pB relations =
     (case List.find (\<lambda>r. (playerA r = pA \<and> playerB r = pB) \<or> (playerA r = pB \<and> playerB r = pA))
             relations of
        Some rel \<Rightarrow> status rel
      | None \<Rightarrow> Neutral)"

text \<open>\<open>[a, b].sort().join('_')\<close>, the strings compared lexicographically.\<close>

definition pairKey :: "string \<Rightarrow> string \<Rightarrow> string" where
  "pairKey a b = (if b < a then b @ ''_'' @ a else a @ ''_'' @ b)"

text \<open>
  The pairs hold references to unit objects; they are positions in the unit array. The
  inner loop body returns the pair list and the set of processed keys.
\<close>

definition considerPair ::
  "UnitInstance list \<Rightarrow> DiplomacyRelation list \<Rightarrow> nat \<Rightarrow> nat
     \<Rightarrow> (nat \<times> nat) list \<times> string set \<Rightarrow> (nat \<times> nat) list \<times> string set" where
  "considerPair units relations i j st =
     (case st of (pairs, processed) \<Rightarrow>
        if u_id (units ! i) = u_id (units ! j) then (pairs, processed)
        else if u_ownerId (units ! i) = u_ownerId (units ! j) then (pairs, processed)
        else if pairKey (u_id (units ! i)) (u_id (units ! j)) \<in> processed then (pairs, processed)
        else if max \<bar>u_x (units ! i) - u_x (units ! j)\<bar> \<bar>u_y (units ! i) - u_y (units ! j)\<bar> > 1
             then (pairs, processed)
        else if getRelation_turn (u_ownerId (units ! i)) (u_ownerId (units ! j)) relations = Enemy
             then (pairs @ [(i, j)],
                   insert (pairKey (u_id (units ! i)) (u_id (units ! j))) processed)
        else (pairs, processed))"

definition findCombatPairs :: "UnitInstance list \<Rightarrow> DiplomacyRelation list \<Rightarrow> (nat \<times> nat) list" where
  "findCombatPairs units relations =
     (let aliveUnits = filter (\<lambda>i. isAlive (units ! i)) [0..<length units]
      in fst (fold (\<lambda>i st. fold (considerPair units relations i) aliveUnits st) aliveUnits ([], {})))"

fun combatPhase ::
  "(nat \<times> nat) list \<Rightarrow> TileGrid \<Rightarrow> int \<Rightarrow> UnitInstance list \<Rightarrow> CombatLog list \<Rightarrow> Sys
     \<Rightarrow> error + (UnitInstance list \<times> CombatLog list \<times> Sys)" where
  "combatPhase [] grid turn units logs sys = Inr (units, logs, sys)"
| "combatPhase ((i, j) # pairs) grid turn units logs sys =
     (let attacker = units ! i; defender = units ! j in
      case (getTile grid (u_x attacker) (u_y attacker), getTile grid (u_x defender) (u_y defender)) of
        (Some aTile, Some dTile) \<Rightarrow>
          (case executeCombat attacker defender aTile dTile turn sys of
             Inl e \<Rightarrow> Inl e
           | Inr (combatResult, sys') \<Rightarrow>
               (case applyCombatResult attacker defender combatResult of
                  (attacker', defender') \<Rightarrow>
                    combatPhase pairs grid turn (units[i := attacker', j := defender'])
                      (logs @ [r_log combatResult]) sys'))
      | _ \<Rightarrow> combatPhase pairs grid turn units logs sys)"

subsection \<open>Phase 3: build actions\<close>

definition sacrifice :: "string option \<Rightarrow> UnitInstance list \<Rightarrow> UnitInstance list" where
  "sacrifice sacrificeUnitId units =
     (case sacrificeUnitId of
        None \<Rightarrow> units
      | Some sid \<Rightarrow>
          if sid = [] then units
          else (case findIndex (\<lambda>u. u_id u = sid) units of
                  Some k \<Rightarrow> units[k := (units ! k)\<lparr>isAlive := False, currentHp := 0\<rparr>]
                | None \<Rightarrow> units))"

definition applyBuild ::
  "renderer \<Rightarrow> Game \<Rightarrow> TurnAction \<Rightarrow> BuildingInstance list \<times> UnitInstance list \<times> Sys
     \<Rightarrow> BuildingInstance list \<times> UnitInstance list \<times> Sys" where
  "applyBuild render game action st =
     (case st of (buildings, units, sys) \<Rightarrow>
        (case act_payload action of
           BuildAction buildingTypeId posX posY sacrificeUnitId \<Rightarrow>
             (case Date_now sys of (now, sys1) \<Rightarrow>
              case Math_random sys1 of (rnd, sys2) \<Rightarrow>
                (buildings @
                   [\<lparr>b_id = ''bldg_'' @ render now rnd, b_typeId = buildingTypeId,
                     b_ownerId = act_playerId action, b_x = posX, b_y = posY, settlementId = None,
                     isConstructed = False, turnsRemaining = 2,
                     b_createdTurn = currentTurn game\<rparr>],
                 sacrifice sacrificeUnitId units, sys2))
         | _ \<Rightarrow> (buildings, units, sys)))"

definition buildPhase ::
  "renderer \<Rightarrow> Game \<Rightarrow> TurnAction list \<Rightarrow> BuildingInstance list \<times> UnitInstance list \<times> Sys
     \<Rightarrow> BuildingInstance list \<times> UnitInstance list \<times> Sys" where
  "buildPhase render game actions st = fold (applyBuild render game) actions st"

subsection \<open>Phases 4 and 5: construction and upgrades\<close>

text \<open>The message texts are written without their accents.\<close>

definition advanceBuilding ::
  "BuildingInstance \<Rightarrow> BuildingInstance list \<times> string list \<Rightarrow> BuildingInstance list \<times> string list" where
  "advanceBuilding building st =
     (case st of (acc, msgs) \<Rightarrow>
        if \<not> isConstructed building \<and> turnsRemaining building > 0
        then (let b1 = building\<lparr>turnsRemaining := turnsRemaining building - 1\<rparr> in
              if turnsRemaining b1 \<le> 0
              then (acc @ [b1\<lparr>isConstructed := True\<rparr>], msgs @ [''Batiment construit !''])
              else (acc @ [b1], msgs))
        else (acc @ [building], msgs))"

definition advanceSettlement ::
  "SettlementInstance \<Rightarrow> SettlementInstance list \<times> string list
     \<Rightarrow> SettlementInstance list \<times> string list" where
  "advanceSettlement settlement st =
     (case st of (acc, msgs) \<Rightarrow>
        if isUpgrading settlement \<and> upgradeTurnsRemaining settlement > 0
        then (let s1 = settlement\<lparr>upgradeTurnsRemaining := upgradeTurnsRemaining settlement - 1\<rparr> in
              if upgradeTurnsRemaining s1 \<le> 0
              then (acc @ [s1\<lparr>isUpgrading := False\<rparr>], msgs @ [s_name settlement @ '' a ete ameliore !''])
              else (acc @ [s1], msgs))
        else (acc @ [settlement], msgs))"

subsection \<open>Phase 6: monthly production and reproduction\<close>

definition getPlayerTiles :: "TileGrid \<Rightarrow> string \<Rightarrow> Tile list" where
  "getPlayerTiles grid playerId = filter (\<lambda>t. t_ownerId t = Some playerId) (map snd (tiles grid))"

definition reproduceUnit ::
  "renderer \<Rightarrow> int \<Rightarrow> UnitInstance \<Rightarrow> UnitInstance list \<times> Sys \<Rightarrow> UnitInstance list \<times> Sys" where
  "reproduceUnit render turn unit st =
     (case st of (spawned, sys) \<Rightarrow>
        if \<not> isAlive unit then (spawned, sys)
        else (case UNIT_TYPES (typeId unit) of
                None \<Rightarrow> (spawned, sys)
              | Some uType \<Rightarrow>
                  if \<not> canReproduce uType then (spawned, sys)
                  else (case Math_random sys of (roll, sys1) \<Rightarrow>
                          if roll < reproductionChance uType
                          then (case Date_now sys1 of (now, sys2) \<Rightarrow>
                                case Math_random sys2 of (rnd, sys3) \<Rightarrow>
                                  (spawned @
                                     [\<lparr>u_id = typeId unit @ ''_'' @ render now rnd,
                                       typeId = typeId unit, u_ownerId = u_ownerId unit,
                                       u_x = u_x unit, u_y = u_y unit,
                                       currentHp = hp (stats uType), armyId = None,
                                       isAlive = True, hasMoved = True, hasActed = True,
                                       createdTurn = turn\<rparr>],
                                   sys3))
                          else (spawned, sys1))))"

definition processReproduction ::
  "renderer \<Rightarrow> UnitInstance list \<Rightarrow> int \<Rightarrow> Sys \<Rightarrow> UnitInstance list \<times> Sys" where
  "processReproduction render units turn sys = fold (reproduceUnit render turn) units ([], sys)"

text \<open>
  \<open>EconomyEngine.simulate\<close> only reads its arguments and returns a report; the pipeline
  takes it as a parameter \<open>simulate\<close>, so what follows holds for whatever report it
  computes.
\<close>

type_synonym simulator =
  "Player \<Rightarrow> UnitInstance list \<Rightarrow> BuildingInstance list \<Rightarrow> SettlementInstance list
     \<Rightarrow> Tile list \<Rightarrow> TileGrid \<Rightarrow> int \<Rightarrow> ProductionReport"

definition monthlyPlayer ::
  "simulator \<Rightarrow> renderer \<Rightarrow> Game \<Rightarrow> TileGrid \<Rightarrow> UnitInstance list \<Rightarrow> BuildingInstance list
     \<Rightarrow> SettlementInstance list \<Rightarrow> Player
     \<Rightarrow> Player list \<times> UnitInstance list \<times> string list \<times> Sys
     \<Rightarrow> Player list \<times> UnitInstance list \<times> string list \<times> Sys" where
  "monthlyPlayer simulate render game grid units buildings settlements player st =
     (case st of (acc, spawned, msgs, sys) \<Rightarrow>
        (let playerUnits = filter (\<lambda>u. u_ownerId u = p_id player \<and> isAlive u) units;
             playerBuildings = filter (\<lambda>b. b_ownerId b = p_id player) buildings;
             playerSettlements = filter (\<lambda>s. s_ownerId s = p_id player) settlements;
             playerTiles = getPlayerTiles grid (p_id player);
             report = simulate player playerUnits playerBuildings playerSettlements playerTiles
                        grid (currentTurn game);
             player' = player\<lparr>resources := newResources (executeProduction player report)\<rparr>
         in case processReproduction render playerUnits (currentTurn game) sys of
              (born, sys') \<Rightarrow>
                (acc @ [player'], spawned @ born,
                 msgs @ map (\<lambda>w. ''['' @ p_name player @ ''] '' @ w) (warnings report), sys')))"

subsection \<open>The pipeline\<close>

definition resolveTurn ::
  "simulator \<Rightarrow> renderer \<Rightarrow> Game \<Rightarrow> Player list \<Rightarrow> UnitInstance list \<Rightarrow> BuildingInstance list
     \<Rightarrow> SettlementInstance list \<Rightarrow> Army list \<Rightarrow> TurnAction list \<Rightarrow> TileGrid
     \<Rightarrow> DiplomacyRelation list \<Rightarrow> Sys \<Rightarrow> error + (TurnResolutionResult \<times> Sys)" where
  "resolveTurn simulate render game players units buildings settlements armies actions grid
      relations sys =
     (let units1 = movePhase actions units;
          combatPairs = findCombatPairs units1 relations
      in case combatPhase combatPairs grid (currentTurn game) units1 [] sys of
           Inl e \<Rightarrow> Inl e
         | Inr (units2, logs, sys2) \<Rightarrow>
             (case buildPhase render game actions (buildings, units2, sys2) of
                (buildings3, units3, sys3) \<Rightarrow>
             case fold advanceBuilding buildings3 ([], []) of
                (buildings4, msgs4) \<Rightarrow>
             case fold advanceSettlement settlements ([], msgs4) of
                (settlements5, msgs5) \<Rightarrow>
             case (if currentTurn game > 0 \<and> currentTurn game mod turnsPerMonth game = 0
                   then fold (monthlyPlayer simulate render game grid units3 buildings4 settlements5)
                          players ([], [], msgs5, sys3)
                   else (players, [], msgs5, sys3)) of
                (players6, born, msgs6, sys6) \<Rightarrow>
                  Inr (\<lparr>combatLogs = logs,
                        newUnits = born,
                        updatedUnits = resetUnitsForTurn units3,
                        updatedPlayers = map (\<lambda>p. p\<lparr>turnPlayed := False\<rparr>) players6,
                        updatedBuildings = buildings4,
                        updatedSettlements = settlements5,
                        messages = msgs6\<rparr>, sys6)))"

text \<open>The unit invariant: a living unit has positive hit points.\<close>

definition unit_ok :: "UnitInstance \<Rightarrow> bool" where
  "unit_ok u \<longleftrightarrow> (isAlive u \<longrightarrow> currentHp u > 0)"

text \<open>
  A month-end turn: a peasant that reproduces (every random draw is 1/10, below the
  peasant's reproduction chance), a knight that moves next to an enemy herald, a second
  peasant that is sacrificed for a building, a unit that is already dead, and a simulation
  that reports nothing.
\<close>

definition ex_sys_low :: Sys where
  "ex_sys_low = \<lparr>randoms = (\<lambda>n. 1 / 10), uuids = (\<lambda>n. ''id''), clock = (\<lambda>n. 0)\<rparr>"

definition ex_simulate :: simulator where
  "ex_simulate player units buildings settlements playerTiles grid turn =
     \<lparr>r_playerId = p_id player, r_turn = turn, netResources = Map.empty, warnings = []\<rparr>"

definition ex_render :: renderer where
  "ex_render now rnd = ''0''"

definition ex_game :: Game where
  "ex_game = \<lparr>currentTurn = 10, turnsPerMonth = 10\<rparr>"

definition ex_turn_units :: "UnitInstance list" where
  "ex_turn_units =
     [ex_unit ''u1'' ''peasant'' ''p1'' 0 0 10 True,
      ex_unit ''k1'' ''knight'' ''p1'' 2 0 35 True,
      ex_unit ''h2'' ''herald'' ''p2'' 1 1 8 True,
      ex_unit ''u3'' ''peasant'' ''p1'' 0 2 10 True,
      ex_unit ''x4'' ''knight'' ''p2'' 2 2 0 False]"

definition ex_actions :: "TurnAction list" where
  "ex_actions =
     [\<lparr>act_playerId = ''p1'', act_payload = MoveAction ''k1'' 1 0\<rparr>,
      \<lparr>act_playerId = ''p1'', act_payload = BuildAction ''farm'' 0 2 (Some ''u3'')\<rparr>]"

definition ex_relations :: "DiplomacyRelation list" where
  "ex_relations = [\<lparr>playerA = ''p1'', playerB = ''p2'', status = Enemy\<rparr>]"

text \<open>
  Notions used in the proofs about the two searches: the Chebyshev distance between two
  coordinates, the finite set of coordinates a search can ever visit, and the cost a tile
  charges.
\<close>

definition cheb :: "key \<Rightarrow> key \<Rightarrow> int" where
  "cheb a b = max \<bar>fst a - fst b\<bar> \<bar>snd a - snd b\<bar>"

definition tileKey :: "Tile \<Rightarrow> key" where
  "tileKey t = key (t_x t) (t_y t)"

definition universe :: "TileGrid \<Rightarrow> key \<Rightarrow> key set" where
  "universe grid start = insert start (tileKey ` snd ` set (tiles grid))"

text \<open>
  Invariant of the reachable-set loop. Every recorded cost and every queued item is the
  cost of a walk; the start keeps cost 0; and every recorded entry is either still queued
  with that cost or has had all its neighbours relaxed.
\<close>

definition queued :: "QItem list \<Rightarrow> key \<Rightarrow> int \<Rightarrow> bool" where
  "queued queue k c \<longleftrightarrow> (\<exists>q \<in> set queue. key (q_x q) (q_y q) = k \<and> q_cost q = c)"

definition relaxed :: "TileGrid \<Rightarrow> bool \<Rightarrow> int option \<Rightarrow> (key \<times> int) list \<Rightarrow> key \<Rightarrow> int \<Rightarrow> bool" where
  "relaxed grid isNaval maxMovement reachableMap k c \<longleftrightarrow>
     (\<forall>t \<in> set (getNeighbors grid (fst k) (snd k)).
        enterable isNaval t \<longrightarrow> \<not> exceeds (c + getMovementCost t) maxMovement \<longrightarrow>
        (\<exists>c'. map_of reachableMap (tileKey t) = Some c' \<and> c' \<le> c + getMovementCost t))"

definition sound_map :: "TileGrid \<Rightarrow> bool \<Rightarrow> int option \<Rightarrow> key \<Rightarrow> (key \<times> int) list \<Rightarrow> bool" where
  "sound_map grid isNaval maxMovement start reachableMap \<longleftrightarrow>
     (\<forall>k c. map_of reachableMap k = Some c \<longrightarrow> walk grid isNaval maxMovement start k c)"

definition sound_queue :: "TileGrid \<Rightarrow> bool \<Rightarrow> int option \<Rightarrow> key \<Rightarrow> QItem list \<Rightarrow> bool" where
  "sound_queue grid isNaval maxMovement start queue \<longleftrightarrow>
     (\<forall>q \<in> set queue. walk grid isNaval maxMovement start (key (q_x q) (q_y q)) (q_cost q))"

definition mid_inv ::
  "TileGrid \<Rightarrow> bool \<Rightarrow> int option \<Rightarrow> key \<Rightarrow> (key \<times> int) option
     \<Rightarrow> (key \<times> int) list \<Rightarrow> QItem list \<Rightarrow> bool" where
  "mid_inv grid isNaval maxMovement start exempt reachableMap queue \<longleftrightarrow>
     sound_map grid isNaval maxMovement start reachableMap
     \<and> sound_queue grid isNaval maxMovement start queue
     \<and> map_of reachableMap start = Some 0
     \<and> distinct (map fst reachableMap)
     \<and> (\<forall>k c. map_of reachableMap k = Some c \<longrightarrow>
            queued queue k c \<or> exempt = Some (k, c)
            \<or> relaxed grid isNaval maxMovement reachableMap k c)"

definition reach_inv ::
  "TileGrid \<Rightarrow> bool \<Rightarrow> int option \<Rightarrow> key \<Rightarrow> (key \<times> int) list \<Rightarrow> QItem list \<Rightarrow> bool" where
  "reach_inv grid isNaval maxMovement start reachableMap queue \<longleftrightarrow>
     mid_inv grid isNaval maxMovement start None reachableMap queue"

definition no_worse :: "(key \<times> int) list \<Rightarrow> (key \<times> int) list \<Rightarrow> bool" where
  "no_worse reachableMap reachableMap' \<longleftrightarrow>
     (\<forall>k c. map_of reachableMap k = Some c \<longrightarrow> (\<exists>c'. map_of reachableMap' k = Some c' \<and> c' \<le> c))"

definition cost_sum :: "(key \<times> int) list \<Rightarrow> nat" where
  "cost_sum reachableMap = sum_list (map (\<lambda>(k, c). nat c) reachableMap)"

definition reach_measure :: "TileGrid \<Rightarrow> key \<Rightarrow> (key \<times> int) list \<times> QItem list \<Rightarrow> nat \<times> nat" where
  "reach_measure grid start st =
     (card (universe grid start) - length (fst st), 2 * cost_sum (fst st) + length (snd st))"

definition reach_less :: "((nat \<times> nat) \<times> (nat \<times> nat)) set" where
  "reach_less = less_than <*lex*> less_than"

definition improves :: "(key \<times> int) list \<Rightarrow> key \<Rightarrow> int \<Rightarrow> bool" where
  "improves reachableMap k c \<longleftrightarrow> (case map_of reachableMap k of None \<Rightarrow> True | Some e \<Rightarrow> c < e)"

definition pushes :: "bool \<Rightarrow> int option \<Rightarrow> QItem \<Rightarrow> Tile \<Rightarrow> (key \<times> int) list \<Rightarrow> bool" where
  "pushes isNaval maxMovement current neighbor reachableMap \<longleftrightarrow>
     enterable isNaval neighbor
     \<and> \<not> exceeds (q_cost current + getMovementCost neighbor) maxMovement
     \<and> improves reachableMap (tileKey neighbor) (q_cost current + getMovementCost neighbor)"

text \<open>
  Invariant of the A* loop. Every open node is stored under its own coordinates, carries
  the cost of a walk and has \<open>f = g + h\<close>; no open node is closed; the goal is never
  closed. On a well-formed grid, moreover, the start is closed or open at cost 0, and every
  neighbour that a closed coordinate can step to (from any walk reaching that coordinate)
  is closed or open at no greater cost.
\<close>

definition open_ok ::
  "TileGrid \<Rightarrow> bool \<Rightarrow> int option \<Rightarrow> key \<Rightarrow> key \<Rightarrow> (key \<times> PathNode) list \<Rightarrow> bool" where
  "open_ok grid isNaval maxMovement start goal openSet \<longleftrightarrow>
     distinct (map fst openSet)
     \<and> (\<forall>k n. (k, n) \<in> set openSet \<longrightarrow>
            k = key (n_x n) (n_y n)
            \<and> walk grid isNaval maxMovement start k (n_g n)
            \<and> n_f n = n_g n + cheb k goal)"

definition astar_inv ::
  "TileGrid \<Rightarrow> bool \<Rightarrow> int option \<Rightarrow> key \<Rightarrow> key \<Rightarrow> (key \<times> PathNode) list \<Rightarrow> key set \<Rightarrow> bool" where
  "astar_inv grid isNaval maxMovement start goal openSet closedSet \<longleftrightarrow>
     open_ok grid isNaval maxMovement start goal openSet
     \<and> fst ` set openSet \<inter> closedSet = {}
     \<and> closedSet \<subseteq> universe grid start
     \<and> goal \<notin> closedSet"

definition open_at_most :: "(key \<times> PathNode) list \<Rightarrow> key set \<Rightarrow> key \<Rightarrow> int \<Rightarrow> bool" where
  "open_at_most openSet closedSet k c \<longleftrightarrow>
     k \<in> closedSet \<or> (\<exists>n. map_of openSet k = Some n \<and> n_g n \<le> c)"

definition astar_opt ::
  "TileGrid \<Rightarrow> bool \<Rightarrow> int option \<Rightarrow> key \<Rightarrow> (key \<times> PathNode) list \<Rightarrow> key set \<Rightarrow> bool" where
  "astar_opt grid isNaval maxMovement start openSet closedSet \<longleftrightarrow>
     open_at_most openSet closedSet start 0
     \<and> (\<forall>k \<in> closedSet. \<forall>c. walk grid isNaval maxMovement start k c \<longrightarrow>
          (\<forall>t \<in> set (getNeighbors grid (fst k) (snd k)).
             enterable isNaval t \<longrightarrow> \<not> exceeds (c + getMovementCost t) maxMovement \<longrightarrow>
             open_at_most openSet closedSet (tileKey t) (c + getMovementCost t)))"

definition opens ::
  "bool \<Rightarrow> int option \<Rightarrow> key set \<Rightarrow> PathNode \<Rightarrow> Tile \<Rightarrow> (key \<times> PathNode) list \<Rightarrow> bool" where
  "opens isNaval maxMovement closedSet current neighbor openSet \<longleftrightarrow>
     tileKey neighbor \<notin> closedSet
     \<and> enterable isNaval neighbor
     \<and> \<not> exceeds (n_g current + getMovementCost neighbor) maxMovement
     \<and> (case map_of openSet (tileKey neighbor) of
          None \<Rightarrow> True
        | Some existing \<Rightarrow> n_g current + getMovementCost neighbor < n_g existing)"

definition newNode :: "int \<Rightarrow> int \<Rightarrow> PathNode \<Rightarrow> Tile \<Rightarrow> PathNode" where
  "newNode endX endY current neighbor =
     PathNode (t_x neighbor) (t_y neighbor) (n_g current + getMovementCost neighbor)
       (heuristic endX endY (t_x neighbor) (t_y neighbor))
       (n_g current + getMovementCost neighbor + heuristic endX endY (t_x neighbor) (t_y neighbor))
       (Some current)"

definition g_no_worse :: "(key \<times> PathNode) list \<Rightarrow> (key \<times> PathNode) list \<Rightarrow> bool" where
  "g_no_worse openSet openSet' \<longleftrightarrow>
     (\<forall>k n. map_of openSet k = Some n \<longrightarrow> (\<exists>n'. map_of openSet' k = Some n' \<and> n_g n' \<le> n_g n))"

definition result_ok :: "TileGrid \<Rightarrow> bool \<Rightarrow> int option \<Rightarrow> key \<Rightarrow> key \<Rightarrow> PathResult \<Rightarrow> bool" where
  "result_ok grid isNaval maxMovement start goal r \<longleftrightarrow>
     (reachable r \<longrightarrow>
        walk grid isNaval maxMovement start goal (totalCost r)
        \<and> (wf_grid grid \<longrightarrow> (\<forall>c. walk grid isNaval maxMovement start goal c \<longrightarrow> totalCost r \<le> c)))
     \<and> (\<not> reachable r \<longrightarrow>
        r = noPath \<and> (wf_grid grid \<longrightarrow> (\<forall>c. \<not> walk grid isNaval maxMovement start goal c)))"

section \<open>Shrinking a grid\<close>

text \<open>
  C5 (as stated): a shrink request whose resulting width or height is non-positive is
  reported as a structured, non-throwing result. On the code this fails: shrinking a
  1x1 grid by one row from the north takes the \<open>throw new Error(...)\<close> branch.
\<close>

theorem shrink_throws_counterexample:
  "throws (shrink (newTileGrid 1 1) North 1)"
  by (simp add: throws_def shrink_def shrinkDims_def newTileGrid_def)

text \<open>
  C5 (amended): whenever the resulting width or height would be non-positive, \<open>shrink\<close>
  raises the error \<open>Cannot shrink map below 1x1\<close>. The receiver is only read (the
  method builds a fresh grid), so the grid it was called on is the same afterwards.
\<close>

theorem shrink_nonpositive_raises:
  assumes "shrinkDims grid direction amount = (newWidth, newHeight, offsetX, offsetY)"
    and "newWidth \<le> 0 \<or> newHeight \<le> 0"
  shows "shrink grid direction amount = Inl (Error ''Cannot shrink map below 1x1'')"
  using assms by (simp add: shrink_def)

theorem shrink_nonpositive_raises_witness:
  "shrinkDims (newTileGrid 3 2) West 3 = (0, 2, -3, 0)
   \<and> shrink (newTileGrid 3 2) West 3 = Inl (Error ''Cannot shrink map below 1x1'')"
proof -
  have d: "shrinkDims (newTileGrid 3 2) West 3 = (0, 2, -3, 0)"
    by (simp add: shrinkDims_def newTileGrid_def)
  have z: "(0::int) \<le> 0 \<or> (2::int) \<le> 0" by simp
  show ?thesis using d shrink_nonpositive_raises [OF d z] by simp
qed

section \<open>Resource clamping\<close>

lemma entries_map_of_gen:
  "distinct ks \<Longrightarrow> map_of (concat (map (\<lambda>k. case b k of None \<Rightarrow> [] | Some v \<Rightarrow> [(k, v)]) ks)) k
     = (if k \<in> set ks then b k else None)"
  by (induction ks) (auto split: option.splits)

lemma ResourceType_values_all: "k \<in> set ResourceType_values"
  by (cases k) (simp_all add: ResourceType_values_def)

lemma ResourceType_values_distinct: "distinct ResourceType_values"
  by (simp add: ResourceType_values_def)

lemma map_of_entries: "map_of (entries b) = b"
  by (rule ext) (simp add: entries_def entries_map_of_gen ResourceType_values_distinct ResourceType_values_all)

lemma entries_keys_distinct_gen:
  "distinct ks \<Longrightarrow> distinct (map fst (concat (map (\<lambda>k. case b k of None \<Rightarrow> [] | Some v \<Rightarrow> [(k, v)]) ks)))"
  by (induction ks) (auto split: option.splits)

lemma distinct_entries: "distinct (map fst (entries b))"
  by (simp add: entries_def entries_keys_distinct_gen ResourceType_values_distinct)

lemma fold_add_lookup:
  "distinct (map fst es) \<Longrightarrow>
   fold (\<lambda>(k, val) a. a(k \<mapsto> orZero (a k) + val)) es a k
     = (case map_of es k of None \<Rightarrow> a k | Some v \<Rightarrow> Some (orZero (a k) + v))"
proof (induction es arbitrary: a)
  case Nil
  then show ?case by simp
next
  case (Cons e es)
  obtain k' v' where e: "e = (k', v')" by (cases e)
  from Cons.prems e have nk: "map_of es k' = None" and d: "distinct (map fst es)"
    by (auto simp: map_of_eq_None_iff)
  show ?case
  proof (cases "k = k'")
    case True
    with nk e Cons.IH [OF d] show ?thesis by (simp add: orZero_def)
  next
    case False
    with e Cons.IH [OF d] show ?thesis by simp
  qed
qed

lemma addResources_lookup:
  "addResources a b k = (case b k of None \<Rightarrow> a k | Some v \<Rightarrow> Some (orZero (a k) + v))"
  by (simp add: addResources_def fold_add_lookup distinct_entries map_of_entries)

lemma fold_clamp_lookup:
  "distinct ks \<Longrightarrow>
   fold (\<lambda>k nr. if orZero (nr k) < 0 then nr(k \<mapsto> 0) else nr) ks m k
     = (if k \<in> set ks \<and> orZero (m k) < 0 then Some 0 else m k)"
  by (induction ks arbitrary: m) (auto simp: orZero_def split: option.splits)

lemma executeProduction_lookup:
  "newResources (executeProduction player report) k =
     (let v = addResources (resources player) (netResources report) k
      in if orZero v < 0 then Some 0 else v)"
  by (simp add: executeProduction_def Let_def fold_clamp_lookup ResourceType_values_distinct
      ResourceType_values_all)

text \<open>
  C6: the map returned by \<open>executeProduction\<close> is, entry by entry, the pool plus the
  report's net delta (an absent entry counting as zero) clamped below at zero; an entry
  absent from both stays absent. No entry of the returned map is negative.
\<close>

theorem executeProduction_clamps:
  "newResources (executeProduction player report) k =
     (if resources player k = None \<and> netResources report k = None then None
      else Some (max 0 (orZero (resources player k) + orZero (netResources report k))))
   \<and> (\<forall>v. newResources (executeProduction player report) k = Some v \<longrightarrow> 0 \<le> v)"
  unfolding executeProduction_lookup addResources_lookup
  by (auto simp: Let_def orZero_def split: option.splits)

theorem executeProduction_clamps_witness:
  "newResources (executeProduction scenarioC_player scenarioC_report) Grain = Some 0
   \<and> (0::int) \<le> 0"
  using executeProduction_clamps [of scenarioC_player scenarioC_report Grain]
  by (simp add: scenarioC_player_def scenarioC_report_def orZero_def)

section \<open>Bounds on combat damage and hit points\<close>

text \<open>
  C2: whenever the resolver returns (both unit types are known), the damage to the
  defender is at least 1, the damage to the attacker is at least 0, and after
  \<open>applyCombatResult\<close> neither unit has negative hit points.
\<close>

theorem combat_damage_and_hp_bounds:
  assumes "resolve attacker defender attackerTile defenderTile turn sys = Inr (result, sys')"
  shows "defenderDamage result \<ge> 1 \<and> attackerDamage result \<ge> 0
    \<and> currentHp (fst (applyCombatResult attacker defender result)) \<ge> 0
    \<and> currentHp (snd (applyCombatResult attacker defender result)) \<ge> 0"
  using assms
  by (auto simp: resolve_def applyCombatResult_def Let_def split: option.splits prod.splits if_splits)

lemma UNIT_TYPES_knight: "UNIT_TYPES ''knight'' = Some (mkUnitType Military 35 10 8 4 1 2 False 0)"
  by (simp add: UNIT_TYPES_def UNIT_TYPES_table_def)

lemma UNIT_TYPES_herald: "UNIT_TYPES ''herald'' = Some (mkUnitType Special 8 0 1 5 1 4 False 0)"
  by (simp add: UNIT_TYPES_def UNIT_TYPES_table_def)

lemma UNIT_TYPES_peasant: "UNIT_TYPES ''peasant'' = Some (mkUnitType Civil 10 1 1 2 1 2 True 0.15)"
  by (simp add: UNIT_TYPES_def UNIT_TYPES_table_def)

lemma resolve_knight_herald:
  "resolve (ex_unit a ''knight'' p 0 0 ha True) (ex_unit d ''herald'' q 1 0 hpd True)
      (ex_tile 0 0 Grassland) (ex_tile 1 0 Grassland) 1 ex_sys
   = Inr (\<lparr>attackerDamage = 0, defenderDamage = 10, attackerSurvived = (ha > 0),
            defenderSurvived = (hpd > 10),
            r_log = \<lparr>l_id = ''id'', l_turn = 1, l_attackerId = p, l_defenderId = q,
                    l_attackerUnitId = a, l_defenderUnitId = d, l_attackerDamage = 0,
                    l_defenderDamage = 10, l_attackerSurvived = (ha > 0),
                    l_defenderSurvived = (hpd > 10), l_terrainBonus = 1, l_timestamp = 0\<rparr>\<rparr>,
          ex_sys)"
  by (auto simp: resolve_def UNIT_TYPES_knight UNIT_TYPES_herald mkUnitType_def ex_unit_def
      ex_tile_def ex_sys_def terrainBonusOf_def mkTerrain_def random_factor_def Math_random_def
      uuid_def Date_now_def getDistance_def Math_round_def Let_def)

theorem combat_damage_and_hp_bounds_witness:
  "(\<exists>result sys'.
      resolve (ex_unit ''a'' ''knight'' ''p1'' 0 0 35 True) (ex_unit ''d'' ''herald'' ''p2'' 1 0 8 True)
        (ex_tile 0 0 Grassland) (ex_tile 1 0 Grassland) 1 ex_sys = Inr (result, sys')
      \<and> defenderDamage result \<ge> 1 \<and> attackerDamage result \<ge> 0
      \<and> currentHp (fst (applyCombatResult (ex_unit ''a'' ''knight'' ''p1'' 0 0 35 True)
            (ex_unit ''d'' ''herald'' ''p2'' 1 0 8 True) result)) \<ge> 0
      \<and> currentHp (snd (applyCombatResult (ex_unit ''a'' ''knight'' ''p1'' 0 0 35 True)
            (ex_unit ''d'' ''herald'' ''p2'' 1 0 8 True) result)) \<ge> 0)"
  using combat_damage_and_hp_bounds [OF resolve_knight_herald [of "''a''" "''p1''" 35 "''d''" "''p2''"]]
    resolve_knight_herald [of "''a''" "''p1''" 35 "''d''" "''p2''"]
  by blast

section \<open>Creating an army\<close>

lemma createArmy_Nil:
  "filter (selectable ownerId ids) units = [] \<Longrightarrow> createArmy name ownerId ids units sys = (None, units, sys)"
  by (simp add: createArmy_def)

lemma createArmy_Cons:
  "filter (selectable ownerId ids) units = first # rest \<Longrightarrow>
   createArmy name ownerId ids units sys =
     (if \<not> (\<forall>u \<in> set (first # rest). u_x u = u_x first \<and> u_y u = u_y first)
      then (None, units, sys)
      else (Some \<lparr>a_id = fst (uuid sys), a_ownerId = ownerId, a_name = name,
                    unitIds = map u_id (first # rest), a_x = u_x first, a_y = u_y first\<rparr>,
            map (\<lambda>u. if selectable ownerId ids u then u\<lparr>armyId := Some (fst (uuid sys))\<rparr> else u) units,
            snd (uuid sys)))"
  by (simp add: createArmy_def Let_def list_all_iff split_beta)


lemma createArmy_cases:
  "createArmy name ownerId ids units sys =
     (let sel = filter (selectable ownerId ids) units in
      if sel = [] \<or> (\<exists>u \<in> set sel. (u_x u, u_y u) \<noteq> (u_x (hd sel), u_y (hd sel)))
      then (None, units, sys)
      else (Some \<lparr>a_id = fst (uuid sys), a_ownerId = ownerId, a_name = name,
                    unitIds = map u_id sel, a_x = u_x (hd sel), a_y = u_y (hd sel)\<rparr>,
            map (\<lambda>u. if selectable ownerId ids u then u\<lparr>armyId := Some (fst (uuid sys))\<rparr> else u) units,
            snd (uuid sys)))"
proof (cases "filter (selectable ownerId ids) units")
  case Nil
  then show ?thesis by (simp add: createArmy_Nil)
next
  case (Cons first rest)
  have c: "(\<not> (\<forall>u \<in> set (first # rest). u_x u = u_x first \<and> u_y u = u_y first))
      = (first # rest = [] \<or> (\<exists>u \<in> set (first # rest). (u_x u, u_y u) \<noteq> (u_x (hd (first # rest)), u_y (hd (first # rest)))))"
    by auto
  show ?thesis
    unfolding createArmy_Cons [OF Cons] Let_def Cons c by simp
qed

lemma ex_army_units_selected:
  "filter (selectable ''p1'' [''u1'', ''u2'']) ex_army_units = [ex_unit ''u1'' ''knight'' ''p1'' 0 0 35 True]"
  by (simp add: ex_army_units_def ex_unit_def selectable_def)

lemma createArmy_example:
  "createArmy ''A'' ''p1'' [''u1'', ''u2''] ex_army_units ex_sys
     = (Some ex_army, ex_army_units_after, snd (uuid ex_sys))"
  apply (simp add: createArmy_def ex_army_units_selected Let_def split_beta)
  apply (simp add: ex_army_units_def ex_army_units_after_def ex_army_def
      ex_unit_def ex_sys_def selectable_def uuid_def)
  done

text \<open>
  C4 (as stated): if any named unit is dead, the call fails and returns no army. On the
  code this fails: with the two named units \<open>u1\<close> (alive) and \<open>u2\<close> (dead) the call
  returns an army whose only member is \<open>u1\<close>.
\<close>

theorem createArmy_dead_member_counterexample:
  "\<not> isAlive (ex_army_units ! 1) \<and> u_id (ex_army_units ! 1) \<in> set [''u1'', ''u2'']
   \<and> fst (createArmy ''A'' ''p1'' [''u1'', ''u2''] ex_army_units ex_sys) = Some ex_army
   \<and> unitIds ex_army = [''u1'']"
proof -
  have "\<not> isAlive (ex_army_units ! 1)" "u_id (ex_army_units ! 1) \<in> set [''u1'', ''u2'']"
    by (simp_all add: ex_army_units_def ex_unit_def)
  moreover have "unitIds ex_army = [''u1'']" by (simp add: ex_army_def)
  ultimately show ?thesis by (simp add: createArmy_example)
qed

text \<open>
  C4 (amended): \<open>createArmy\<close> selects, among the given units, those that are named,
  alive and owned by the requesting player; named units that are dead or owned by somebody
  else are left out and do not make the call fail. The call returns no army exactly when
  the selection is empty or some selected unit is not on the first selected unit's tile,
  and then changes no unit. On success the army's members are exactly the selected units'
  ids, the army stands on their tile, every selected unit's army back-reference is the new
  army's id and every other unit is unchanged.
\<close>

theorem createArmy_selects_and_stamps:
  assumes run: "createArmy name ownerId ids units sys = (res, units', sys')"
    and sel: "selectedUnits = filter (selectable ownerId ids) units"
  shows "(res = None \<longleftrightarrow>
            selectedUnits = []
            \<or> (\<exists>u \<in> set selectedUnits. (u_x u, u_y u) \<noteq> (u_x (hd selectedUnits), u_y (hd selectedUnits))))
       \<and> (res = None \<longrightarrow> units' = units)
       \<and> (\<forall>army. res = Some army \<longrightarrow>
             unitIds army = map u_id selectedUnits
             \<and> a_ownerId army = ownerId
             \<and> (a_x army, a_y army) = (u_x (hd selectedUnits), u_y (hd selectedUnits))
             \<and> length units' = length units
             \<and> (\<forall>i < length units.
                   units' ! i = (if selectable ownerId ids (units ! i)
                                 then (units ! i)\<lparr>armyId := Some (a_id army)\<rparr>
                                 else units ! i)))"
proof -
  define bad where "bad \<longleftrightarrow> selectedUnits = []
     \<or> (\<exists>u \<in> set selectedUnits. (u_x u, u_y u) \<noteq> (u_x (hd selectedUnits), u_y (hd selectedUnits)))"
  have eq: "(res, units', sys') =
     (if bad then (None, units, sys)
      else (Some \<lparr>a_id = fst (uuid sys), a_ownerId = ownerId, a_name = name,
                    unitIds = map u_id selectedUnits, a_x = u_x (hd selectedUnits),
                    a_y = u_y (hd selectedUnits)\<rparr>,
            map (\<lambda>u. if selectable ownerId ids u then u\<lparr>armyId := Some (fst (uuid sys))\<rparr> else u) units,
            snd (uuid sys)))"
    unfolding run [symmetric] bad_def sel createArmy_cases Let_def by (rule refl)
  show ?thesis
  proof (cases bad)
    case True
    with eq have "res = None" "units' = units" by simp_all
    then show ?thesis using True unfolding bad_def by blast
  next
    case False
    with eq have r: "res = Some \<lparr>a_id = fst (uuid sys), a_ownerId = ownerId, a_name = name,
                    unitIds = map u_id selectedUnits, a_x = u_x (hd selectedUnits),
                    a_y = u_y (hd selectedUnits)\<rparr>"
      and u: "units' = map (\<lambda>u. if selectable ownerId ids u then u\<lparr>armyId := Some (fst (uuid sys))\<rparr> else u) units"
      by simp_all
    have nb: "\<not> (selectedUnits = []
     \<or> (\<exists>u \<in> set selectedUnits. (u_x u, u_y u) \<noteq> (u_x (hd selectedUnits), u_y (hd selectedUnits))))"
      using False unfolding bad_def .
    from r have c0: "res \<noteq> None" by simp
    have c1: "res = None \<longleftrightarrow>
            selectedUnits = []
            \<or> (\<exists>u \<in> set selectedUnits. (u_x u, u_y u) \<noteq> (u_x (hd selectedUnits), u_y (hd selectedUnits)))"
      using c0 nb by blast
    have c2: "res = None \<longrightarrow> units' = units" using c0 by blast
    have c3: "\<forall>army. res = Some army \<longrightarrow>
             unitIds army = map u_id selectedUnits
             \<and> a_ownerId army = ownerId
             \<and> (a_x army, a_y army) = (u_x (hd selectedUnits), u_y (hd selectedUnits))
             \<and> length units' = length units
             \<and> (\<forall>i < length units.
                   units' ! i = (if selectable ownerId ids (units ! i)
                                 then (units ! i)\<lparr>armyId := Some (a_id army)\<rparr>
                                 else units ! i))"
      unfolding r u by simp
    show ?thesis using c1 c2 c3 by blast
  qed
qed

theorem createArmy_selects_and_stamps_witness:
  "createArmy ''A'' ''p1'' [''u1'', ''u2''] ex_army_units ex_sys
     = (Some ex_army, ex_army_units_after, snd (uuid ex_sys))
   \<and> unitIds ex_army = map u_id (filter (selectable ''p1'' [''u1'', ''u2'']) ex_army_units)
   \<and> length ex_army_units_after = length ex_army_units"
proof -
  note t = createArmy_selects_and_stamps [OF createArmy_example refl]
  from t have "unitIds ex_army = map u_id (filter (selectable ''p1'' [''u1'', ''u2'']) ex_army_units)"
    by blast
  moreover from t have "length ex_army_units_after = length ex_army_units" by blast
  ultimately show ?thesis using createArmy_example by blast
qed

section \<open>Army against army\<close>

lemma army_example_code:
  "army_outcome (resolveArmyCombat ex_attackers ex_defenders (ex_tile 0 0 Grassland)
       (ex_tile 1 0 Grassland) 1 ex_sys)
     = Some ([(''a0'', ''d0''), (''a1'', ''d1'')],
             [(''a0'', True, 35), (''a1'', True, 35), (''a2'', True, 35)],
             [(''d0'', False, 0), (''d1'', True, 30)])"
  by code_simp

lemma army_example_spec:
  "army_outcome (resolveArmyCombat_spec ex_attackers ex_defenders (ex_tile 0 0 Grassland)
       (ex_tile 1 0 Grassland) 1 ex_sys)
     = Some ([(''a0'', ''d0''), (''a1'', ''d1''), (''a2'', ''d1'')],
             [(''a0'', True, 35), (''a1'', True, 35), (''a2'', True, 35)],
             [(''d0'', False, 0), (''d1'', True, 20)])"
  by code_simp

text \<open>
  C3: the defender of an encounter is to be picked by the attacker's index modulo the
  current count of surviving defenders, so that every surviving attacker fights while a
  defender survives. The code takes the index modulo the length of the defender array
  filtered once before the loop; the array filtered again after each encounter
  (\<open>stillAlive\<close>) only decides the early exit. With three knights attacking two
  heralds on adjacent grassland tiles, the first encounter kills \<open>d0\<close>; the third
  attacker \<open>a2\<close> is then sent to index \<open>2 mod 2 = 0\<close>, finds \<open>d0\<close> dead
  and fights nobody although \<open>d1\<close> is still alive: the code returns two encounters
  and leaves \<open>d1\<close> at 30 hit points, where the pairing over the survivors has
  \<open>a2\<close> fight \<open>d1\<close> as the third encounter and leaves it at 20.
\<close>

theorem resolveArmyCombat_idle_attacker:
  "army_outcome (resolveArmyCombat ex_attackers ex_defenders (ex_tile 0 0 Grassland)
       (ex_tile 1 0 Grassland) 1 ex_sys)
     = Some ([(''a0'', ''d0''), (''a1'', ''d1'')],
             [(''a0'', True, 35), (''a1'', True, 35), (''a2'', True, 35)],
             [(''d0'', False, 0), (''d1'', True, 30)])
   \<and> army_outcome (resolveArmyCombat_spec ex_attackers ex_defenders (ex_tile 0 0 Grassland)
       (ex_tile 1 0 Grassland) 1 ex_sys)
     = Some ([(''a0'', ''d0''), (''a1'', ''d1''), (''a2'', ''d1'')],
             [(''a0'', True, 35), (''a1'', True, 35), (''a2'', True, 35)],
             [(''d0'', False, 0), (''d1'', True, 20)])"
  using army_example_code army_example_spec by (rule conjI)

section \<open>Facts about grids, costs and walks\<close>

lemma movementCost_pos: "TERRAIN_DEFS ter = Some d \<Longrightarrow> 1 \<le> movementCost d"
  by (cases ter) (auto simp: mkTerrain_def)

lemma enterable_cost_pos: "enterable isNaval t \<Longrightarrow> 1 \<le> getMovementCost t"
  by (auto simp: enterable_def getMovementCost_def ROAD_movementCostOverride_def
      split: option.splits dest: movementCost_pos)

lemma exceeds_mono: "exceeds c b \<Longrightarrow> c \<le> c' \<Longrightarrow> exceeds c' b"
  by (auto simp: exceeds_def split: option.splits)

lemma getNeighbors_D:
  assumes "t \<in> set (getNeighbors grid gx gy)"
  shows "\<exists>dx dy. (dx, dy) \<in> set dirs8 \<and> isInBounds grid (gx + dx) (gy + dy)
           \<and> getTile grid (gx + dx) (gy + dy) = Some t"
proof -
  from assms obtain d where d: "d \<in> set dirs8"
    and t: "t \<in> set ((\<lambda>(dx, dy).
        let nx = gx + dx; ny = gy + dy in
        if isInBounds grid nx ny
        then (case getTile grid nx ny of Some t \<Rightarrow> [t] | None \<Rightarrow> [])
        else []) d)"
    unfolding getNeighbors_def set_concat set_map by blast
  obtain dx dy where dd: "d = (dx, dy)" by (cases d)
  from t have "t \<in> set (if isInBounds grid (gx + dx) (gy + dy)
        then (case getTile grid (gx + dx) (gy + dy) of Some t \<Rightarrow> [t] | None \<Rightarrow> [])
        else [])"
    unfolding dd Let_def prod.case .
  then have "isInBounds grid (gx + dx) (gy + dy) \<and> getTile grid (gx + dx) (gy + dy) = Some t"
    by (cases "isInBounds grid (gx + dx) (gy + dy)"; cases "getTile grid (gx + dx) (gy + dy)")
       simp_all
  with d dd show ?thesis by blast
qed

lemma getNeighbors_I:
  assumes "(dx, dy) \<in> set dirs8" and "isInBounds grid (gx + dx) (gy + dy)"
    and "getTile grid (gx + dx) (gy + dy) = Some t"
  shows "t \<in> set (getNeighbors grid gx gy)"
proof -
  have "t \<in> set ((\<lambda>(dx, dy).
        let nx = gx + dx; ny = gy + dy in
        if isInBounds grid nx ny
        then (case getTile grid nx ny of Some t \<Rightarrow> [t] | None \<Rightarrow> [])
        else []) (dx, dy))"
    unfolding Let_def prod.case using assms(2,3) by simp
  with assms(1) show ?thesis
    unfolding getNeighbors_def set_concat set_map by blast
qed

lemma getNeighbors_in_tiles:
  "t \<in> set (getNeighbors grid gx gy) \<Longrightarrow> t \<in> snd ` set (tiles grid)"
  by (auto dest!: getNeighbors_D simp: getTile_def dest!: map_of_SomeD intro: rev_image_eqI)

lemma getNeighbors_universe:
  "t \<in> set (getNeighbors grid gx gy) \<Longrightarrow> tileKey t \<in> universe grid start"
  by (auto simp: universe_def dest: getNeighbors_in_tiles)

lemma dirs8_bound: "(dx, dy) \<in> set dirs8 \<Longrightarrow> \<bar>dx\<bar> \<le> 1 \<and> \<bar>dy\<bar> \<le> 1"
  by (auto simp: dirs8_def)

lemma getNeighbors_adjacent:
  assumes "wf_grid grid" and "t \<in> set (getNeighbors grid gx gy)"
  shows "cheb (tileKey t) (gx, gy) \<le> 1"
proof -
  from getNeighbors_D [OF assms(2)] obtain dx dy where
    d: "(dx, dy) \<in> set dirs8" and g: "getTile grid (gx + dx) (gy + dy) = Some t" by blast
  from g have "((gx + dx, gy + dy), t) \<in> set (tiles grid)"
    by (auto simp: getTile_def key_def dest: map_of_SomeD)
  with assms(1) have "tileKey t = (gx + dx, gy + dy)"
    by (auto simp: wf_grid_def tileKey_def)
  with dirs8_bound [OF d] show ?thesis by (simp add: cheb_def)
qed

lemma cheb_triangle: "cheb a c \<le> cheb a b + cheb b c"
  by (auto simp: cheb_def)

lemma cheb_sym: "cheb a b = cheb b a"
  by (auto simp: cheb_def)

lemma cheb_self [simp]: "cheb a a = 0"
  by (simp add: cheb_def)

lemma heuristic_cheb: "heuristic endX endY hx hy = cheb (hx, hy) (endX, endY)"
  by (simp add: heuristic_def cheb_def)

lemma walk_nonneg: "walk grid isNaval maxMovement start k c \<Longrightarrow> 0 \<le> c"
  by (induction rule: walk.induct) (auto dest: enterable_cost_pos)

lemma walk_universe: "walk grid isNaval maxMovement start k c \<Longrightarrow> k \<in> universe grid start"
  by (induction rule: walk.induct) (auto simp: universe_def tileKey_def dest: getNeighbors_in_tiles)

lemma finite_universe: "finite (universe grid start)"
  by (simp add: universe_def)

lemma wf_grid_new: "wf_grid (newTileGrid w h)"
  by (simp add: wf_grid_def newTileGrid_def)

lemma set_update_subset: "set (AList.update k v al) \<subseteq> insert (k, v) (set al)"
  by (induction al) auto

lemma wf_grid_setTile: "wf_grid grid \<Longrightarrow> wf_grid (setTile grid tile)"
  using set_update_subset [of "key (t_x tile) (t_y tile)" tile "tiles grid"]
  by (auto simp: wf_grid_def setTile_def)

section \<open>The reachable-set search terminates and computes least walk costs\<close>

lemma relaxReach_eq:
  "relaxReach isNaval B cur t (R, Q) =
     (if pushes isNaval B cur t R
      then (AList.update (tileKey t) (q_cost cur + getMovementCost t) R,
            Q @ [\<lparr>q_x = t_x t, q_y = t_y t, q_cost = q_cost cur + getMovementCost t\<rparr>])
      else (R, Q))"
  unfolding relaxReach_def Let_def prod.case tileKey_def pushes_def improves_def
  by (cases "map_of R (key (t_x t) (t_y t))") simp_all

lemma relaxReach_result:
  assumes "relaxReach isNaval B cur t (R, Q) = (R', Q')"
    and "enterable isNaval t" and "\<not> exceeds (q_cost cur + getMovementCost t) B"
  shows "\<exists>c'. map_of R' (tileKey t) = Some c' \<and> c' \<le> q_cost cur + getMovementCost t"
proof (cases "pushes isNaval B cur t R")
  case True
  with assms have "R' = AList.update (tileKey t) (q_cost cur + getMovementCost t) R"
    by (simp add: relaxReach_eq)
  then show ?thesis by (simp add: update_conv')
next
  case False
  with assms(2,3) have "\<not> improves R (tileKey t) (q_cost cur + getMovementCost t)"
    by (simp add: pushes_def)
  then obtain e where e: "map_of R (tileKey t) = Some e" "\<not> q_cost cur + getMovementCost t < e"
    by (auto simp: improves_def split: option.splits)
  from False assms(1) have "R' = R" by (simp add: relaxReach_eq)
  with e show ?thesis by simp
qed

lemma no_worse_refl: "no_worse R R"
  by (simp add: no_worse_def)

lemma no_worse_trans: "no_worse R R' \<Longrightarrow> no_worse R' R'' \<Longrightarrow> no_worse R R''"
  unfolding no_worse_def by (meson order_trans)

lemma update_no_worse: "improves R k c \<Longrightarrow> no_worse R (AList.update k c R)"
  unfolding no_worse_def improves_def by (auto simp: update_conv' split: option.splits)

lemma relaxReach_no_worse:
  assumes "relaxReach isNaval B cur t (R, Q) = (R', Q')"
  shows "no_worse R R'"
proof (cases "pushes isNaval B cur t R")
  case True
  with assms have r: "R' = AList.update (tileKey t) (q_cost cur + getMovementCost t) R"
    by (simp add: relaxReach_eq)
  from True show ?thesis unfolding r by (simp add: pushes_def update_no_worse)
next
  case False
  with assms have "R' = R" by (simp add: relaxReach_eq)
  then show ?thesis by (simp add: no_worse_refl)
qed

lemma relaxed_mono:
  "no_worse R R' \<Longrightarrow> relaxed grid isNaval B R k c \<Longrightarrow> relaxed grid isNaval B R' k c"
  unfolding no_worse_def relaxed_def by (meson order_trans)

lemma key_fst_snd [simp]: "fst (key a b) = a" "snd (key a b) = b"
  by (simp_all add: key_def)

lemma walk_to_neighbor:
  assumes "walk grid isNaval B start (key cx cy) c"
    and "t \<in> set (getNeighbors grid cx cy)"
    and "enterable isNaval t" and "\<not> exceeds (c + getMovementCost t) B"
  shows "walk grid isNaval B start (tileKey t) (c + getMovementCost t)"
  using walk_step [OF assms(1)] assms(2-4) by (simp add: tileKey_def)

lemma pushed_cost_pos:
  assumes "walk grid isNaval B start k c" and "enterable isNaval t"
  shows "1 \<le> c + getMovementCost t"
  using walk_nonneg [OF assms(1)] enterable_cost_pos [OF assms(2)] by simp

lemma queued_append: "queued Q k c \<Longrightarrow> queued (Q @ Q') k c"
  by (auto simp: queued_def)

lemma queued_last:
  "queued (Q @ [\<lparr>q_x = t_x t, q_y = t_y t, q_cost = c\<rparr>]) (tileKey t) c"
  by (simp add: queued_def tileKey_def)

lemma relaxReach_mid_inv:
  assumes inv: "mid_inv grid isNaval B start ex R Q"
    and cur: "walk grid isNaval B start (key (q_x cur) (q_y cur)) (q_cost cur)"
    and t: "t \<in> set (getNeighbors grid (q_x cur) (q_y cur))"
    and step: "relaxReach isNaval B cur t (R, Q) = (R', Q')"
  shows "mid_inv grid isNaval B start ex R' Q'"
proof (cases "pushes isNaval B cur t R")
  case False
  with step have "R' = R" "Q' = Q" by (simp_all add: relaxReach_eq)
  with inv show ?thesis by simp
next
  case True
  define c where "c = q_cost cur + getMovementCost t"
  from True step have r: "R' = AList.update (tileKey t) c R"
    and q: "Q' = Q @ [\<lparr>q_x = t_x t, q_y = t_y t, q_cost = c\<rparr>]"
    by (simp_all add: relaxReach_eq c_def)
  from True have ent: "enterable isNaval t" and nex: "\<not> exceeds c B"
    and imp: "improves R (tileKey t) c"
    by (simp_all add: pushes_def c_def)
  have w: "walk grid isNaval B start (tileKey t) c"
    unfolding c_def using walk_to_neighbor [OF cur t ent] nex c_def by simp
  have cpos: "1 \<le> c" unfolding c_def by (rule pushed_cost_pos [OF cur ent])
  from inv have sm: "sound_map grid isNaval B start R"
    and sq: "sound_queue grid isNaval B start Q"
    and s0: "map_of R start = Some 0"
    and di: "distinct (map fst R)"
    and cl: "\<forall>k c. map_of R k = Some c \<longrightarrow>
            queued Q k c \<or> ex = Some (k, c) \<or> relaxed grid isNaval B R k c"
    by (simp_all add: mid_inv_def)
  have nw: "no_worse R R'" unfolding r by (rule update_no_worse [OF imp])
  have look: "\<And>k. map_of R' k = (if k = tileKey t then Some c else map_of R k)"
    unfolding r by (simp add: update_conv')
  have sm': "sound_map grid isNaval B start R'"
    unfolding sound_map_def look using sm w by (simp add: sound_map_def)
  have sq': "sound_queue grid isNaval B start Q'"
    unfolding q using sq w by (simp add: sound_queue_def tileKey_def)
  have ns: "tileKey t \<noteq> start"
  proof
    assume "tileKey t = start"
    with imp s0 have "c < 0" by (simp add: improves_def)
    with cpos show False by simp
  qed
  have s0': "map_of R' start = Some 0" using ns s0 by (simp add: look)
  have di': "distinct (map fst R')" unfolding r using di by (simp add: distinct_update)
  have cl': "\<forall>k c'. map_of R' k = Some c' \<longrightarrow>
            queued Q' k c' \<or> ex = Some (k, c') \<or> relaxed grid isNaval B R' k c'"
  proof (intro allI impI)
    fix k c' assume a: "map_of R' k = Some c'"
    show "queued Q' k c' \<or> ex = Some (k, c') \<or> relaxed grid isNaval B R' k c'"
    proof (cases "k = tileKey t")
      case True
      with a have "c' = c" by (simp add: look)
      with True show ?thesis unfolding q using queued_last by blast
    next
      case False
      with a have "map_of R k = Some c'" by (simp add: look)
      with cl have "queued Q k c' \<or> ex = Some (k, c') \<or> relaxed grid isNaval B R k c'" by blast
      then show ?thesis unfolding q using queued_append relaxed_mono [OF nw] by blast
    qed
  qed
  show ?thesis unfolding mid_inv_def using sm' sq' s0' di' cl' by blast
qed

lemma cost_sum_update:
  "distinct (map fst al) \<Longrightarrow> map_of al k = Some e \<Longrightarrow>
   cost_sum (AList.update k v al) + nat e = cost_sum al + nat v"
proof (induction al)
  case Nil
  then show ?case by simp
next
  case (Cons p al)
  obtain k' v' where p: "p = (k', v')" by (cases p)
  show ?case
  proof (cases "k = k'")
    case True
    with Cons.prems p show ?thesis by (simp add: cost_sum_def)
  next
    case False
    with Cons.prems p have "map_of al k = Some e" "distinct (map fst al)" by simp_all
    from Cons.IH [OF this(2,1)] False p show ?thesis by (simp add: cost_sum_def)
  qed
qed

lemma length_update:
  "length (AList.update k v al) = (if k \<in> fst ` set al then length al else Suc (length al))"
  by (induction al) auto

lemma sound_map_keys:
  assumes "sound_map grid isNaval B start R" and "distinct (map fst R)"
  shows "length R \<le> card (universe grid start)"
proof -
  have "fst ` set R \<subseteq> universe grid start"
  proof
    fix k assume "k \<in> fst ` set R"
    then obtain v where "(k, v) \<in> set R" by auto
    with assms(2) have "map_of R k = Some v" by simp
    with assms(1) have "walk grid isNaval B start k v" unfolding sound_map_def by blast
    then show "k \<in> universe grid start" by (rule walk_universe)
  qed
  then have "card (fst ` set R) \<le> card (universe grid start)"
    by (rule card_mono [OF finite_universe])
  moreover have "card (fst ` set R) = length R"
    using assms(2) by (metis distinct_card length_map set_map)
  ultimately show ?thesis by simp
qed

lemma relaxReach_measure:
  assumes inv: "mid_inv grid isNaval B start ex R Q"
    and cur: "walk grid isNaval B start (key (q_x cur) (q_y cur)) (q_cost cur)"
    and t: "t \<in> set (getNeighbors grid (q_x cur) (q_y cur))"
    and step: "relaxReach isNaval B cur t (R, Q) = (R', Q')"
  shows "(R', Q') = (R, Q)
     \<or> (reach_measure grid start (R', Q'), reach_measure grid start (R, Q)) \<in> reach_less"
proof (cases "pushes isNaval B cur t R")
  case False
  with step show ?thesis by (simp add: relaxReach_eq)
next
  case True
  define c where "c = q_cost cur + getMovementCost t"
  from True step have r: "R' = AList.update (tileKey t) c R"
    and q: "Q' = Q @ [\<lparr>q_x = t_x t, q_y = t_y t, q_cost = c\<rparr>]"
    by (simp_all add: relaxReach_eq c_def)
  from True have ent: "enterable isNaval t" and imp: "improves R (tileKey t) c"
    by (simp_all add: pushes_def c_def)
  have cpos: "1 \<le> c" unfolding c_def by (rule pushed_cost_pos [OF cur ent])
  from relaxReach_mid_inv [OF inv cur t step]
  have sm': "sound_map grid isNaval B start R'" and di': "distinct (map fst R')"
    by (simp_all add: mid_inv_def)
  from inv have di: "distinct (map fst R)" by (simp add: mid_inv_def)
  have bound: "length R' \<le> card (universe grid start)" by (rule sound_map_keys [OF sm' di'])
  show ?thesis
  proof (cases "map_of R (tileKey t)")
    case None
    then have "tileKey t \<notin> fst ` set R" by (simp add: map_of_eq_None_iff)
    then have "length R' = Suc (length R)" unfolding r by (simp add: length_update)
    with bound have "card (universe grid start) - length R' < card (universe grid start) - length R"
      by simp
    then show ?thesis by (simp add: reach_measure_def reach_less_def)
  next
    case (Some e)
    then have "tileKey t \<in> fst ` set R" by (metis map_of_eq_None_iff option.distinct(1))
    then have len: "length R' = length R" unfolding r by (simp add: length_update)
    from Some imp have "c < e" by (simp add: improves_def)
    with cpos have "nat c < nat e" by simp
    with cost_sum_update [OF di Some, of c] have "cost_sum R' < cost_sum R" unfolding r by linarith
    then have "2 * cost_sum R' + length Q' < 2 * cost_sum R + length Q" unfolding q by simp
    with len show ?thesis by (simp add: reach_measure_def reach_less_def)
  qed
qed

lemma reach_less_trans:
  "(a, b) \<in> reach_less \<Longrightarrow> (b, c) \<in> reach_less \<Longrightarrow> (a, c) \<in> reach_less"
  using trans_lex_prod [OF trans_less_than trans_less_than]
  unfolding reach_less_def trans_def by blast

lemma wf_reach_less: "wf reach_less"
  by (simp add: reach_less_def wf_lex_prod)

lemma fold_relaxReach:
  assumes "mid_inv grid isNaval B start ex R Q"
    and "walk grid isNaval B start (key (q_x cur) (q_y cur)) (q_cost cur)"
    and "set ns \<subseteq> set (getNeighbors grid (q_x cur) (q_y cur))"
    and "fold (relaxReach isNaval B cur) ns (R, Q) = (R', Q')"
  shows "mid_inv grid isNaval B start ex R' Q'
     \<and> no_worse R R'
     \<and> (\<forall>t \<in> set ns. enterable isNaval t \<longrightarrow> \<not> exceeds (q_cost cur + getMovementCost t) B \<longrightarrow>
           (\<exists>c'. map_of R' (tileKey t) = Some c' \<and> c' \<le> q_cost cur + getMovementCost t))
     \<and> ((R', Q') = (R, Q)
         \<or> (reach_measure grid start (R', Q'), reach_measure grid start (R, Q)) \<in> reach_less)"
  using assms
proof (induction ns arbitrary: R Q)
  case Nil
  then show ?case by (simp add: no_worse_refl)
next
  case (Cons t ns)
  obtain R1 Q1 where s1: "relaxReach isNaval B cur t (R, Q) = (R1, Q1)"
    by (cases "relaxReach isNaval B cur t (R, Q)")
  from Cons.prems(3) have t: "t \<in> set (getNeighbors grid (q_x cur) (q_y cur))"
    and ns: "set ns \<subseteq> set (getNeighbors grid (q_x cur) (q_y cur))" by simp_all
  from Cons.prems(4) s1 have f: "fold (relaxReach isNaval B cur) ns (R1, Q1) = (R', Q')" by simp
  note i1 = relaxReach_mid_inv [OF Cons.prems(1,2) t s1]
  note m1 = relaxReach_measure [OF Cons.prems(1,2) t s1]
  note n1 = relaxReach_no_worse [OF s1]
  note ih = Cons.IH [OF i1 Cons.prems(2) ns f]
  from ih have inv': "mid_inv grid isNaval B start ex R' Q'" and n2: "no_worse R1 R'"
    and rel: "\<forall>t \<in> set ns. enterable isNaval t \<longrightarrow> \<not> exceeds (q_cost cur + getMovementCost t) B \<longrightarrow>
           (\<exists>c'. map_of R' (tileKey t) = Some c' \<and> c' \<le> q_cost cur + getMovementCost t)"
    and m2: "(R', Q') = (R1, Q1)
         \<or> (reach_measure grid start (R', Q'), reach_measure grid start (R1, Q1)) \<in> reach_less"
    by blast+
  have nw: "no_worse R R'" by (rule no_worse_trans [OF n1 n2])
  have relt: "enterable isNaval t \<longrightarrow> \<not> exceeds (q_cost cur + getMovementCost t) B \<longrightarrow>
           (\<exists>c'. map_of R' (tileKey t) = Some c' \<and> c' \<le> q_cost cur + getMovementCost t)"
  proof (intro impI)
    assume "enterable isNaval t" "\<not> exceeds (q_cost cur + getMovementCost t) B"
    from relaxReach_result [OF s1 this] obtain c1 where
      "map_of R1 (tileKey t) = Some c1" "c1 \<le> q_cost cur + getMovementCost t" by blast
    with n2 show "\<exists>c'. map_of R' (tileKey t) = Some c' \<and> c' \<le> q_cost cur + getMovementCost t"
      unfolding no_worse_def by (meson order_trans)
  qed
  have m: "(R', Q') = (R, Q)
         \<or> (reach_measure grid start (R', Q'), reach_measure grid start (R, Q)) \<in> reach_less"
    using m1 m2 reach_less_trans by metis
  show ?case using inv' nw rel relt m by simp
qed

lemma mid_inv_pop:
  assumes inv: "reach_inv grid isNaval B start R Q"
    and s: "sort_key q_cost Q = cur # rest"
  shows "mid_inv grid isNaval B start (Some (key (q_x cur) (q_y cur), q_cost cur)) R rest"
    and "walk grid isNaval B start (key (q_x cur) (q_y cur)) (q_cost cur)"
    and "length Q = Suc (length rest)"
proof -
  have "set (sort_key q_cost Q) = set Q" by simp
  with s have sq: "set Q = insert cur (set rest)" by simp
  from inv have sm: "sound_map grid isNaval B start R"
    and sqq: "sound_queue grid isNaval B start Q"
    and s0: "map_of R start = Some 0"
    and di: "distinct (map fst R)"
    and cl: "\<forall>k c. map_of R k = Some c \<longrightarrow> queued Q k c \<or> relaxed grid isNaval B R k c"
    by (simp_all add: reach_inv_def mid_inv_def)
  from sqq sq show "walk grid isNaval B start (key (q_x cur) (q_y cur)) (q_cost cur)"
    by (simp add: sound_queue_def)
  from sqq sq have sqr: "sound_queue grid isNaval B start rest" by (simp add: sound_queue_def)
  have q: "\<And>k c. queued Q k c \<Longrightarrow>
      queued rest k c \<or> (k, c) = (key (q_x cur) (q_y cur), q_cost cur)"
    unfolding queued_def sq by auto
  have cl': "\<forall>k c. map_of R k = Some c \<longrightarrow>
      queued rest k c \<or> Some (key (q_x cur) (q_y cur), q_cost cur) = Some (k, c)
      \<or> relaxed grid isNaval B R k c"
    using cl q by (metis option.inject)
  show "mid_inv grid isNaval B start (Some (key (q_x cur) (q_y cur), q_cost cur)) R rest"
    unfolding mid_inv_def using sm sqr s0 di cl' by blast
  have "length (sort_key q_cost Q) = length Q" by simp
  with s show "length Q = Suc (length rest)" by simp
qed

lemma reach_loop_step:
  assumes inv: "reach_inv grid isNaval B start R Q"
    and s: "sort_key q_cost Q = cur # rest"
    and f: "fold (relaxReach isNaval B cur) (getNeighbors grid (q_x cur) (q_y cur)) (R, rest) = (R', Q')"
  shows "reach_inv grid isNaval B start R' Q'"
    and "(reach_measure grid start (R', Q'), reach_measure grid start (R, Q)) \<in> reach_less"
    and "no_worse R R'"
proof -
  note p = mid_inv_pop [OF inv s]
  note fr = fold_relaxReach [OF p(1) p(2) subset_refl f]
  from fr have mi: "mid_inv grid isNaval B start (Some (key (q_x cur) (q_y cur), q_cost cur)) R' Q'"
    and rel: "\<forall>t \<in> set (getNeighbors grid (q_x cur) (q_y cur)).
           enterable isNaval t \<longrightarrow> \<not> exceeds (q_cost cur + getMovementCost t) B \<longrightarrow>
           (\<exists>c'. map_of R' (tileKey t) = Some c' \<and> c' \<le> q_cost cur + getMovementCost t)"
    and m: "(R', Q') = (R, rest)
         \<or> (reach_measure grid start (R', Q'), reach_measure grid start (R, rest)) \<in> reach_less"
    by blast+
  from fr show "no_worse R R'" by blast
  have rx: "relaxed grid isNaval B R' (key (q_x cur) (q_y cur)) (q_cost cur)"
    unfolding relaxed_def using rel by simp
  from mi have cl: "\<forall>k c. map_of R' k = Some c \<longrightarrow>
            queued Q' k c \<or> Some (key (q_x cur) (q_y cur), q_cost cur) = Some (k, c)
            \<or> relaxed grid isNaval B R' k c"
    by (simp add: mid_inv_def)
  have cl': "\<forall>k c. map_of R' k = Some c \<longrightarrow>
            queued Q' k c \<or> None = Some (k, c) \<or> relaxed grid isNaval B R' k c"
    using cl rx by (metis option.inject prod.inject)
  show "reach_inv grid isNaval B start R' Q'"
    unfolding reach_inv_def mid_inv_def using mi cl' by (simp add: mid_inv_def)
  have lt: "(reach_measure grid start (R, rest), reach_measure grid start (R, Q)) \<in> reach_less"
    using p(3) by (simp add: reach_measure_def reach_less_def)
  from m show "(reach_measure grid start (R', Q'), reach_measure grid start (R, Q)) \<in> reach_less"
    using lt reach_less_trans by metis
qed

lemma reach_loop_total_aux:
  "\<forall>R Q. reach_measure grid start (R, Q) = m \<longrightarrow> reach_inv grid isNaval B start R Q \<longrightarrow>
     (\<exists>Rf. reach_loop grid isNaval B R Q = Some Rf \<and> reach_inv grid isNaval B start Rf []
           \<and> no_worse R Rf)"
proof (induction m rule: wf_induct_rule [OF wf_reach_less])
  case (1 m)
  show ?case
  proof (intro allI impI)
    fix R Q
    assume m: "reach_measure grid start (R, Q) = m"
      and inv: "reach_inv grid isNaval B start R Q"
    show "\<exists>Rf. reach_loop grid isNaval B R Q = Some Rf \<and> reach_inv grid isNaval B start Rf []
           \<and> no_worse R Rf"
    proof (cases "sort_key q_cost Q")
      case Nil
      have "length (sort_key q_cost Q) = length Q" by simp
      with Nil have q: "Q = []" by simp
      have "reach_loop grid isNaval B R Q = Some R"
        by (subst reach_loop.simps) (simp add: Nil)
      with inv q show ?thesis by (auto simp: no_worse_refl)
    next
      case (Cons cur rest)
      obtain R' Q' where f:
        "fold (relaxReach isNaval B cur) (getNeighbors grid (q_x cur) (q_y cur)) (R, rest) = (R', Q')"
        by (cases "fold (relaxReach isNaval B cur) (getNeighbors grid (q_x cur) (q_y cur)) (R, rest)")
      note st = reach_loop_step [OF inv Cons f]
      from 1 [OF st(2) [unfolded m]] st(1) obtain Rf where
        rf: "reach_loop grid isNaval B R' Q' = Some Rf" "reach_inv grid isNaval B start Rf []"
          "no_worse R' Rf"
        by blast
      have "reach_loop grid isNaval B R Q = reach_loop grid isNaval B R' Q'"
        by (subst reach_loop.simps) (simp add: Cons f)
      with rf st(3) show ?thesis using no_worse_trans by metis
    qed
  qed
qed

lemma reach_loop_total:
  assumes "reach_inv grid isNaval B start R Q"
  shows "\<exists>Rf. reach_loop grid isNaval B R Q = Some Rf \<and> reach_inv grid isNaval B start Rf []
           \<and> no_worse R Rf"
  using reach_loop_total_aux assms by blast

lemma reach_inv_init:
  "reach_inv grid isNaval B (key sx sy) [(key sx sy, 0)] [\<lparr>q_x = sx, q_y = sy, q_cost = 0\<rparr>]"
  unfolding reach_inv_def mid_inv_def sound_map_def sound_queue_def queued_def
  by (auto intro: walk_start split: if_splits)

lemma getReachableTiles_total:
  "\<exists>Rf. getReachableTiles grid sx sy B isNaval = Some Rf
        \<and> reach_inv grid isNaval B (key sx sy) Rf []"
  unfolding getReachableTiles_def using reach_loop_total [OF reach_inv_init] by blast

lemma reach_final_sound:
  "reach_inv grid isNaval B start Rf [] \<Longrightarrow> map_of Rf k = Some c \<Longrightarrow>
   walk grid isNaval B start k c"
  unfolding reach_inv_def mid_inv_def sound_map_def by blast

lemma reach_final_start:
  "reach_inv grid isNaval B start Rf [] \<Longrightarrow> map_of Rf start = Some 0"
  unfolding reach_inv_def mid_inv_def by blast

lemma reach_final_complete:
  assumes inv: "reach_inv grid isNaval B start Rf []"
    and w: "walk grid isNaval B start k c"
  shows "\<exists>c'. map_of Rf k = Some c' \<and> c' \<le> c"
  using w
proof (induction rule: walk.induct)
  case walk_start
  from reach_final_start [OF inv] show ?case by simp
next
  case (walk_step k c neighbor)
  then obtain c' where c': "map_of Rf k = Some c'" "c' \<le> c" by blast
  from inv have "\<forall>k c. map_of Rf k = Some c \<longrightarrow>
      queued [] k c \<or> None = Some (k, c) \<or> relaxed grid isNaval B Rf k c"
    unfolding reach_inv_def mid_inv_def by blast
  moreover have "\<not> queued [] k c'" by (simp add: queued_def)
  ultimately have "relaxed grid isNaval B Rf k c'" using c'(1) by blast
  moreover from walk_step.hyps(4) c'(2) have "\<not> exceeds (c' + getMovementCost neighbor) B"
    using exceeds_mono [of "c' + getMovementCost neighbor" B "c + getMovementCost neighbor"] by auto
  ultimately obtain c'' where "map_of Rf (tileKey neighbor) = Some c''"
    "c'' \<le> c' + getMovementCost neighbor"
    unfolding relaxed_def using walk_step.hyps(2,3) by blast
  with c'(2) show ?case by (auto simp: tileKey_def)
qed

section \<open>A* terminates, is sound, and on well-formed grids finds least walk costs\<close>

lemma lowestF_fold:
  "\<exists>r. fold (\<lambda>(k, node) current.
             case current of
               None \<Rightarrow> Some node
             | Some c \<Rightarrow> if n_f node < n_f c then Some node else Some c) openSet (Some c0) = Some r
       \<and> (r = c0 \<or> r \<in> snd ` set openSet) \<and> n_f r \<le> n_f c0
       \<and> (\<forall>kn \<in> set openSet. n_f r \<le> n_f (snd kn))"
proof (induction openSet arbitrary: c0)
  case Nil
  then show ?case by simp
next
  case (Cons p openSet)
  obtain k node where p: "p = (k, node)" by (cases p)
  show ?case
  proof (cases "n_f node < n_f c0")
    case True
    from Cons.IH [of node] True p show ?thesis by (auto simp: rev_image_eqI)
  next
    case False
    from Cons.IH [of c0] False p show ?thesis by (auto simp: rev_image_eqI)
  qed
qed

lemma lowestF_Nil: "lowestF [] = None"
  by (simp add: lowestF_def)

lemma lowestF_Some:
  assumes "openSet \<noteq> []"
  shows "\<exists>cur. lowestF openSet = Some cur \<and> cur \<in> snd ` set openSet
           \<and> (\<forall>kn \<in> set openSet. n_f cur \<le> n_f (snd kn))"
proof -
  from assms obtain k node rest where o: "openSet = (k, node) # rest"
    by (cases openSet) auto
  from lowestF_fold [of rest node] obtain r where
    r: "fold (\<lambda>(k, node) current.
             case current of
               None \<Rightarrow> Some node
             | Some c \<Rightarrow> if n_f node < n_f c then Some node else Some c) rest (Some node) = Some r"
      "r = node \<or> r \<in> snd ` set rest" "n_f r \<le> n_f node"
      "\<forall>kn \<in> set rest. n_f r \<le> n_f (snd kn)"
    by blast
  from r(1) have "lowestF openSet = Some r" unfolding o lowestF_def by simp
  moreover from r(2) have "r \<in> snd ` set openSet" unfolding o by (auto simp: rev_image_eqI)
  moreover from r(3,4) have "\<forall>kn \<in> set openSet. n_f r \<le> n_f (snd kn)" unfolding o by simp
  ultimately show ?thesis by blast
qed

lemma relax_eq:
  "relax endX endY isNaval B C cur t openSet =
     (if opens isNaval B C cur t openSet
      then AList.update (tileKey t) (newNode endX endY cur t) openSet
      else openSet)"
  unfolding relax_def Let_def tileKey_def opens_def newNode_def
  by (cases "map_of openSet (key (t_x t) (t_y t))") auto

lemma g_no_worse_refl: "g_no_worse Op Op"
  by (simp add: g_no_worse_def)

lemma g_no_worse_trans: "g_no_worse Op Op' \<Longrightarrow> g_no_worse Op' Op'' \<Longrightarrow> g_no_worse Op Op''"
  unfolding g_no_worse_def by (meson order_trans)

lemma newNode_sel:
  "n_x (newNode endX endY cur t) = t_x t" "n_y (newNode endX endY cur t) = t_y t"
  "n_g (newNode endX endY cur t) = n_g cur + getMovementCost t"
  "n_f (newNode endX endY cur t) = n_g cur + getMovementCost t + cheb (tileKey t) (key endX endY)"
  by (simp_all add: newNode_def heuristic_cheb tileKey_def key_def)

lemma relax_step:
  assumes ok: "open_ok grid isNaval B start (key endX endY) Op"
    and disj: "fst ` set Op \<inter> C = {}"
    and cur: "walk grid isNaval B start (key (n_x cur) (n_y cur)) (n_g cur)"
    and t: "t \<in> set (getNeighbors grid (n_x cur) (n_y cur))"
    and Op': "Op' = relax endX endY isNaval B C cur t Op"
  shows "open_ok grid isNaval B start (key endX endY) Op'"
    and "fst ` set Op' \<inter> C = {}"
    and "g_no_worse Op Op'"
    and "tileKey t \<notin> C \<longrightarrow> enterable isNaval t
          \<longrightarrow> \<not> exceeds (n_g cur + getMovementCost t) B
          \<longrightarrow> (\<exists>n'. map_of Op' (tileKey t) = Some n' \<and> n_g n' \<le> n_g cur + getMovementCost t)"
proof -
  define nn where "nn = newNode endX endY cur t"
  show "open_ok grid isNaval B start (key endX endY) Op'"
  proof (cases "opens isNaval B C cur t Op")
    case False
    then show ?thesis using ok Op' by (simp add: relax_eq)
  next
    case True
    then have o: "Op' = AList.update (tileKey t) nn Op" using Op' by (simp add: relax_eq nn_def)
    from True have ent: "enterable isNaval t" and nex: "\<not> exceeds (n_g cur + getMovementCost t) B"
      by (simp_all add: opens_def)
    have w: "walk grid isNaval B start (tileKey t) (n_g nn)"
      unfolding nn_def newNode_sel by (rule walk_to_neighbor [OF cur t ent nex])
    have k: "tileKey t = key (n_x nn) (n_y nn)" by (simp add: nn_def newNode_sel tileKey_def)
    have f: "n_f nn = n_g nn + cheb (tileKey t) (key endX endY)" by (simp add: nn_def newNode_sel)
    from ok have d: "distinct (map fst Op')" unfolding o by (simp add: open_ok_def distinct_update)
    have "\<forall>k n. (k, n) \<in> set Op' \<longrightarrow>
            k = key (n_x n) (n_y n)
            \<and> walk grid isNaval B start k (n_g n)
            \<and> n_f n = n_g n + cheb k (key endX endY)"
    proof (intro allI impI)
      fix k' n assume "(k', n) \<in> set Op'"
      with set_update_subset [of "tileKey t" nn Op] have "(k', n) = (tileKey t, nn) \<or> (k', n) \<in> set Op"
        unfolding o by blast
      then show "k' = key (n_x n) (n_y n) \<and> walk grid isNaval B start k' (n_g n)
            \<and> n_f n = n_g n + cheb k' (key endX endY)"
      proof
        assume "(k', n) = (tileKey t, nn)"
        with w k f show ?thesis by simp
      next
        assume "(k', n) \<in> set Op"
        with ok show ?thesis unfolding open_ok_def by blast
      qed
    qed
    with d show ?thesis unfolding open_ok_def by blast
  qed
  show "fst ` set Op' \<inter> C = {}"
  proof (cases "opens isNaval B C cur t Op")
    case False
    then show ?thesis using disj Op' by (simp add: relax_eq)
  next
    case True
    then have o: "Op' = AList.update (tileKey t) nn Op" using Op' by (simp add: relax_eq nn_def)
    from True have "tileKey t \<notin> C" by (simp add: opens_def)
    with disj show ?thesis unfolding o dom_update by blast
  qed
  show "g_no_worse Op Op'"
  proof (cases "opens isNaval B C cur t Op")
    case False
    then show ?thesis using Op' by (simp add: relax_eq g_no_worse_refl)
  next
    case True
    then have o: "Op' = AList.update (tileKey t) nn Op" using Op' by (simp add: relax_eq nn_def)
    show ?thesis unfolding g_no_worse_def
    proof (intro allI impI)
      fix k n assume a: "map_of Op k = Some n"
      show "\<exists>n'. map_of Op' k = Some n' \<and> n_g n' \<le> n_g n"
      proof (cases "k = tileKey t")
        case False
        with a show ?thesis unfolding o by (simp add: update_conv')
      next
        case k: True
        with a True have "n_g cur + getMovementCost t < n_g n" by (simp add: opens_def)
        then have "n_g nn \<le> n_g n" by (simp add: nn_def newNode_sel)
        with k show ?thesis unfolding o by (simp add: update_conv')
      qed
    qed
  qed
  show "tileKey t \<notin> C \<longrightarrow> enterable isNaval t
          \<longrightarrow> \<not> exceeds (n_g cur + getMovementCost t) B
          \<longrightarrow> (\<exists>n'. map_of Op' (tileKey t) = Some n' \<and> n_g n' \<le> n_g cur + getMovementCost t)"
  proof (cases "opens isNaval B C cur t Op")
    case True
    then have o: "Op' = AList.update (tileKey t) nn Op" using Op' by (simp add: relax_eq nn_def)
    show ?thesis unfolding o by (simp add: update_conv' nn_def newNode_sel)
  next
    case False
    then have o: "Op' = Op" using Op' by (simp add: relax_eq)
    show ?thesis
    proof (intro impI)
      assume "tileKey t \<notin> C" "enterable isNaval t" "\<not> exceeds (n_g cur + getMovementCost t) B"
      with False obtain e where "map_of Op (tileKey t) = Some e"
        "\<not> n_g cur + getMovementCost t < n_g e"
        by (auto simp: opens_def split: option.splits)
      then show "\<exists>n'. map_of Op' (tileKey t) = Some n' \<and> n_g n' \<le> n_g cur + getMovementCost t"
        unfolding o by simp
    qed
  qed
qed

lemma fold_relax:
  assumes "open_ok grid isNaval B start (key endX endY) Op"
    and "fst ` set Op \<inter> C = {}"
    and "walk grid isNaval B start (key (n_x cur) (n_y cur)) (n_g cur)"
    and "set ns \<subseteq> set (getNeighbors grid (n_x cur) (n_y cur))"
    and "Op' = fold (relax endX endY isNaval B C cur) ns Op"
  shows "open_ok grid isNaval B start (key endX endY) Op'
     \<and> fst ` set Op' \<inter> C = {}
     \<and> g_no_worse Op Op'
     \<and> (\<forall>t \<in> set ns. tileKey t \<notin> C \<longrightarrow> enterable isNaval t
          \<longrightarrow> \<not> exceeds (n_g cur + getMovementCost t) B
          \<longrightarrow> (\<exists>n'. map_of Op' (tileKey t) = Some n' \<and> n_g n' \<le> n_g cur + getMovementCost t))"
  using assms
proof (induction ns arbitrary: Op)
  case Nil
  then show ?case by (simp add: g_no_worse_refl)
next
  case (Cons t ns)
  define Op1 where "Op1 = relax endX endY isNaval B C cur t Op"
  from Cons.prems(4) have t: "t \<in> set (getNeighbors grid (n_x cur) (n_y cur))"
    and ns: "set ns \<subseteq> set (getNeighbors grid (n_x cur) (n_y cur))" by simp_all
  note s = relax_step [OF Cons.prems(1,2,3) t Op1_def]
  from Cons.prems(5) have f: "Op' = fold (relax endX endY isNaval B C cur) ns Op1"
    by (simp add: Op1_def)
  note ih = Cons.IH [OF s(1) s(2) Cons.prems(3) ns f]
  from ih have ok': "open_ok grid isNaval B start (key endX endY) Op'"
    and d': "fst ` set Op' \<inter> C = {}" and g2: "g_no_worse Op1 Op'"
    and rel: "\<forall>t \<in> set ns. tileKey t \<notin> C \<longrightarrow> enterable isNaval t
          \<longrightarrow> \<not> exceeds (n_g cur + getMovementCost t) B
          \<longrightarrow> (\<exists>n'. map_of Op' (tileKey t) = Some n' \<and> n_g n' \<le> n_g cur + getMovementCost t)"
    by blast+
  have g: "g_no_worse Op Op'" by (rule g_no_worse_trans [OF s(3) g2])
  have relt: "tileKey t \<notin> C \<longrightarrow> enterable isNaval t
          \<longrightarrow> \<not> exceeds (n_g cur + getMovementCost t) B
          \<longrightarrow> (\<exists>n'. map_of Op' (tileKey t) = Some n' \<and> n_g n' \<le> n_g cur + getMovementCost t)"
  proof (intro impI)
    assume "tileKey t \<notin> C" "enterable isNaval t" "\<not> exceeds (n_g cur + getMovementCost t) B"
    with s(4) obtain n1 where "map_of Op1 (tileKey t) = Some n1"
      "n_g n1 \<le> n_g cur + getMovementCost t" by blast
    with g2 show "\<exists>n'. map_of Op' (tileKey t) = Some n' \<and> n_g n' \<le> n_g cur + getMovementCost t"
      unfolding g_no_worse_def by (meson order_trans)
  qed
  show ?case using ok' d' g rel relt by simp
qed

lemma open_ok_D:
  assumes "open_ok grid isNaval B start goal Op" and "(k, n) \<in> set Op"
  shows "k = key (n_x n) (n_y n)" and "walk grid isNaval B start k (n_g n)"
    and "n_f n = n_g n + cheb k goal" and "map_of Op k = Some n"
  using assms unfolding open_ok_def by (blast, blast, blast, simp)

lemma opt_walk_covered:
  assumes wf: "wf_grid grid"
    and inv: "astar_inv grid isNaval B start goal Op C"
    and opt: "astar_opt grid isNaval B start Op C"
    and w: "walk grid isNaval B start k c"
  shows "k \<in> C \<or> (\<exists>k' m. (k', m) \<in> set Op \<and> n_g m + cheb k' k \<le> c)"
  using w
proof (induction rule: walk.induct)
  case walk_start
  from opt have "open_at_most Op C start 0" by (simp add: astar_opt_def)
  then show ?case
  proof (cases "start \<in> C")
    case True
    then show ?thesis by simp
  next
    case False
    with \<open>open_at_most Op C start 0\<close> obtain n where "map_of Op start = Some n" "n_g n \<le> 0"
      by (auto simp: open_at_most_def)
    then have "(start, n) \<in> set Op" "n_g n + cheb start start \<le> 0"
      by (auto dest: map_of_SomeD)
    then show ?thesis by blast
  qed
next
  case (walk_step k c t)
  have cost: "1 \<le> getMovementCost t" by (rule enterable_cost_pos [OF walk_step.hyps(3)])
  show ?case
  proof (cases "k \<in> C")
    case True
    with opt walk_step.hyps have "open_at_most Op C (tileKey t) (c + getMovementCost t)"
      unfolding astar_opt_def by blast
    then show ?thesis
    proof (cases "tileKey t \<in> C")
      case True
      then show ?thesis by (simp add: tileKey_def)
    next
      case False
      with \<open>open_at_most Op C (tileKey t) (c + getMovementCost t)\<close> obtain n where
        "map_of Op (tileKey t) = Some n" "n_g n \<le> c + getMovementCost t"
        by (auto simp: open_at_most_def)
      then have "(tileKey t, n) \<in> set Op" "n_g n + cheb (tileKey t) (tileKey t) \<le> c + getMovementCost t"
        by (auto dest: map_of_SomeD)
      then show ?thesis unfolding tileKey_def by blast
    qed
  next
    case False
    with walk_step.IH obtain k' m where m: "(k', m) \<in> set Op" "n_g m + cheb k' k \<le> c" by blast
    have "cheb (tileKey t) (fst k, snd k) \<le> 1"
      by (rule getNeighbors_adjacent [OF wf walk_step.hyps(2)])
    then have adj: "cheb k (tileKey t) \<le> 1" by (simp add: cheb_sym)
    have "cheb k' (tileKey t) \<le> cheb k' k + cheb k (tileKey t)" by (rule cheb_triangle)
    with adj m(2) cost have "n_g m + cheb k' (tileKey t) \<le> c + getMovementCost t" by linarith
    with m(1) show ?thesis unfolding tileKey_def by blast
  qed
qed

lemma opt_lowest:
  assumes wf: "wf_grid grid"
    and inv: "astar_inv grid isNaval B start goal Op C"
    and opt: "astar_opt grid isNaval B start Op C"
    and cur: "(kc, cur) \<in> set Op"
    and low: "\<forall>kn \<in> set Op. n_f cur \<le> n_f (snd kn)"
    and w: "walk grid isNaval B start kc c"
  shows "n_g cur \<le> c"
proof -
  from inv have ok: "open_ok grid isNaval B start goal Op" and dj: "fst ` set Op \<inter> C = {}"
    by (simp_all add: astar_inv_def)
  from cur dj have "kc \<notin> C" by (auto simp: rev_image_eqI)
  with opt_walk_covered [OF wf inv opt w] obtain k' m where
    m: "(k', m) \<in> set Op" "n_g m + cheb k' kc \<le> c" by blast
  from low m(1) have "n_f cur \<le> n_f m" by auto
  moreover have "n_f cur = n_g cur + cheb kc goal" by (rule open_ok_D(3) [OF ok cur])
  moreover have "n_f m = n_g m + cheb k' goal" by (rule open_ok_D(3) [OF ok m(1)])
  moreover have "cheb k' goal \<le> cheb k' kc + cheb kc goal" by (rule cheb_triangle)
  ultimately show ?thesis using m(2) by linarith
qed

lemma open_at_most_step:
  assumes "open_at_most Op C k c"
    and "g_no_worse (AList.delete kc Op) Op2"
  shows "open_at_most Op2 (insert kc C) k c"
proof (cases "k \<in> insert kc C")
  case True
  then show ?thesis by (simp add: open_at_most_def)
next
  case False
  with assms(1) obtain n where n: "map_of Op k = Some n" "n_g n \<le> c"
    by (auto simp: open_at_most_def)
  from False n(1) have "map_of (AList.delete kc Op) k = Some n" by simp
  with assms(2) obtain n' where "map_of Op2 k = Some n'" "n_g n' \<le> n_g n"
    unfolding g_no_worse_def by blast
  with n(2) show ?thesis unfolding open_at_most_def by (meson order_trans)
qed

lemma astar_step:
  assumes inv: "astar_inv grid isNaval B start (key endX endY) Op C"
    and cur: "(kc, cur) \<in> set Op"
    and ng: "kc \<noteq> key endX endY"
    and Op2: "Op2 = fold (relax endX endY isNaval B (insert kc C) cur)
                      (getNeighbors grid (n_x cur) (n_y cur)) (AList.delete kc Op)"
  shows "astar_inv grid isNaval B start (key endX endY) Op2 (insert kc C)"
    and "card (universe grid start - insert kc C) < card (universe grid start - C)"
    and "g_no_worse (AList.delete kc Op) Op2"
    and "\<forall>t \<in> set (getNeighbors grid (n_x cur) (n_y cur)). tileKey t \<notin> insert kc C
          \<longrightarrow> enterable isNaval t
          \<longrightarrow> \<not> exceeds (n_g cur + getMovementCost t) B
          \<longrightarrow> (\<exists>n'. map_of Op2 (tileKey t) = Some n' \<and> n_g n' \<le> n_g cur + getMovementCost t)"
proof -
  from inv have ok: "open_ok grid isNaval B start (key endX endY) Op"
    and dj: "fst ` set Op \<inter> C = {}" and cu: "C \<subseteq> universe grid start"
    and gc: "key endX endY \<notin> C"
    by (simp_all add: astar_inv_def)
  note c = open_ok_D [OF ok cur]
  have ok1: "open_ok grid isNaval B start (key endX endY) (AList.delete kc Op)"
  proof -
    have "set (AList.delete kc Op) \<subseteq> set Op" by (auto simp: AList.delete_eq)
    moreover from ok have "distinct (map fst (AList.delete kc Op))"
      by (simp add: open_ok_def distinct_delete)
    ultimately show ?thesis using ok unfolding open_ok_def by blast
  qed
  have dj1: "fst ` set (AList.delete kc Op) \<inter> insert kc C = {}"
    using dj dom_delete_subset [of kc Op] delete_notin_dom [of kc Op] by blast
  have wc: "walk grid isNaval B start (key (n_x cur) (n_y cur)) (n_g cur)"
    using c(1,2) by simp
  note fr = fold_relax [OF ok1 dj1 wc subset_refl Op2]
  from fr show "g_no_worse (AList.delete kc Op) Op2" by blast
  from fr show "\<forall>t \<in> set (getNeighbors grid (n_x cur) (n_y cur)). tileKey t \<notin> insert kc C
          \<longrightarrow> enterable isNaval t
          \<longrightarrow> \<not> exceeds (n_g cur + getMovementCost t) B
          \<longrightarrow> (\<exists>n'. map_of Op2 (tileKey t) = Some n' \<and> n_g n' \<le> n_g cur + getMovementCost t)"
    by blast
  have ku: "kc \<in> universe grid start" by (rule walk_universe [OF c(2)])
  from cur dj have knc: "kc \<notin> C" by (auto simp: rev_image_eqI)
  from fr cu ku gc ng show "astar_inv grid isNaval B start (key endX endY) Op2 (insert kc C)"
    unfolding astar_inv_def by blast
  have "universe grid start - insert kc C \<subset> universe grid start - C"
    using ku knc by blast
  then show "card (universe grid start - insert kc C) < card (universe grid start - C)"
    by (rule psubset_card_mono [OF finite_Diff [OF finite_universe]])
qed

lemma astar_opt_step:
  assumes wf: "wf_grid grid"
    and inv: "astar_inv grid isNaval B start (key endX endY) Op C"
    and opt: "astar_opt grid isNaval B start Op C"
    and cur: "(kc, cur) \<in> set Op"
    and low: "\<forall>kn \<in> set Op. n_f cur \<le> n_f (snd kn)"
    and ng: "kc \<noteq> key endX endY"
    and Op2: "Op2 = fold (relax endX endY isNaval B (insert kc C) cur)
                      (getNeighbors grid (n_x cur) (n_y cur)) (AList.delete kc Op)"
  shows "astar_opt grid isNaval B start Op2 (insert kc C)"
proof -
  note st = astar_step [OF inv cur ng Op2]
  from inv have ok: "open_ok grid isNaval B start (key endX endY) Op"
    by (simp add: astar_inv_def)
  have kc: "kc = key (n_x cur) (n_y cur)" by (rule open_ok_D(1) [OF ok cur])
  have s0: "open_at_most Op2 (insert kc C) start 0"
    using opt open_at_most_step [OF _ st(3)] by (simp add: astar_opt_def)
  have cl: "\<forall>k \<in> insert kc C. \<forall>c. walk grid isNaval B start k c \<longrightarrow>
          (\<forall>t \<in> set (getNeighbors grid (fst k) (snd k)).
             enterable isNaval t \<longrightarrow> \<not> exceeds (c + getMovementCost t) B \<longrightarrow>
             open_at_most Op2 (insert kc C) (tileKey t) (c + getMovementCost t))"
  proof (intro ballI allI impI)
    fix k c t
    assume k: "k \<in> insert kc C" and w: "walk grid isNaval B start k c"
      and t: "t \<in> set (getNeighbors grid (fst k) (snd k))"
      and ent: "enterable isNaval t" and nex: "\<not> exceeds (c + getMovementCost t) B"
    show "open_at_most Op2 (insert kc C) (tileKey t) (c + getMovementCost t)"
    proof (cases "k \<in> C")
      case True
      with opt w t ent nex have "open_at_most Op C (tileKey t) (c + getMovementCost t)"
        unfolding astar_opt_def by blast
      then show ?thesis by (rule open_at_most_step [OF _ st(3)])
    next
      case False
      with k have kk: "k = kc" by simp
      from w kk have "n_g cur \<le> c" using opt_lowest [OF wf inv opt cur low] by simp
      with nex have nex': "\<not> exceeds (n_g cur + getMovementCost t) B"
        using exceeds_mono [of "n_g cur + getMovementCost t" B "c + getMovementCost t"] by auto
      from t kk kc have t': "t \<in> set (getNeighbors grid (n_x cur) (n_y cur))" by simp
      show ?thesis
      proof (cases "tileKey t \<in> insert kc C")
        case True
        then show ?thesis by (simp add: open_at_most_def)
      next
        case False
        with st(4) t' ent nex' obtain n' where
          "map_of Op2 (tileKey t) = Some n'" "n_g n' \<le> n_g cur + getMovementCost t" by blast
        with \<open>n_g cur \<le> c\<close> show ?thesis unfolding open_at_most_def
          by (metis add_right_mono order_trans)
      qed
    qed
  qed
  show ?thesis unfolding astar_opt_def using s0 cl by blast
qed

lemma findPath_loop_total_aux:
  "\<forall>Op C. card (universe grid start - C) = m
     \<longrightarrow> astar_inv grid isNaval B start (key endX endY) Op C
     \<longrightarrow> (wf_grid grid \<longrightarrow> astar_opt grid isNaval B start Op C)
     \<longrightarrow> (\<exists>r. findPath_loop grid endX endY isNaval B Op C = Some r
            \<and> result_ok grid isNaval B start (key endX endY) r)"
proof (induction m rule: less_induct)
  case (less m)
  show ?case
  proof (intro allI impI)
    fix Op C
    assume m: "card (universe grid start - C) = m"
      and inv: "astar_inv grid isNaval B start (key endX endY) Op C"
      and opt: "wf_grid grid \<longrightarrow> astar_opt grid isNaval B start Op C"
    from inv have ok: "open_ok grid isNaval B start (key endX endY) Op"
      and dj: "fst ` set Op \<inter> C = {}" and gc: "key endX endY \<notin> C"
      by (simp_all add: astar_inv_def)
    show "\<exists>r. findPath_loop grid endX endY isNaval B Op C = Some r
            \<and> result_ok grid isNaval B start (key endX endY) r"
    proof (cases "Op = []")
      case True
      have r: "findPath_loop grid endX endY isNaval B Op C = Some noPath"
        by (subst findPath_loop.simps) (simp add: True)
      have "wf_grid grid \<longrightarrow> (\<forall>c. \<not> walk grid isNaval B start (key endX endY) c)"
      proof (intro impI allI notI)
        fix c assume wf: "wf_grid grid" and w: "walk grid isNaval B start (key endX endY) c"
        from opt wf have "astar_opt grid isNaval B start Op C" by simp
        from opt_walk_covered [OF wf inv this w] gc True show False by simp
      qed
      then have "result_ok grid isNaval B start (key endX endY) noPath"
        by (simp add: result_ok_def noPath_def)
      with r show ?thesis by blast
    next
      case False
      from lowestF_Some [OF False] obtain cur where
        lf: "lowestF Op = Some cur" and mem: "cur \<in> snd ` set Op"
        and low: "\<forall>kn \<in> set Op. n_f cur \<le> n_f (snd kn)" by blast
      from mem obtain kc where cur: "(kc, cur) \<in> set Op" by auto
      note c = open_ok_D [OF ok cur]
      show ?thesis
      proof (cases "n_x cur = endX \<and> n_y cur = endY")
        case True
        define r where "r = \<lparr>path = reconstruct (Some cur) [], totalCost = n_g cur,
                        reachable = True\<rparr>"
        have res: "findPath_loop grid endX endY isNaval B Op C = Some r"
          by (subst findPath_loop.simps) (simp add: False lf True r_def)
        from True c(1) have kg: "kc = key endX endY" by simp
        have w: "walk grid isNaval B start (key endX endY) (totalCost r)"
          using c(2) kg by (simp add: r_def)
        have "wf_grid grid \<longrightarrow> (\<forall>c. walk grid isNaval B start (key endX endY) c \<longrightarrow> totalCost r \<le> c)"
        proof (intro impI allI)
          fix c' assume wf: "wf_grid grid" and w': "walk grid isNaval B start (key endX endY) c'"
          from opt wf have o: "astar_opt grid isNaval B start Op C" by simp
          from opt_lowest [OF wf inv o cur low] w' kg show "totalCost r \<le> c'" by (simp add: r_def)
        qed
        with w have "result_ok grid isNaval B start (key endX endY) r"
          by (simp add: result_ok_def r_def)
        with res show ?thesis by blast
      next
        case ng: False
        with c(1) have ng': "kc \<noteq> key endX endY" by (auto simp: key_def)
        define Op2 where "Op2 = fold (relax endX endY isNaval B (insert kc C) cur)
                      (getNeighbors grid (n_x cur) (n_y cur)) (AList.delete kc Op)"
        note st = astar_step [OF inv cur ng' Op2_def]
        have o2: "wf_grid grid \<longrightarrow> astar_opt grid isNaval B start Op2 (insert kc C)"
        proof
          assume wf: "wf_grid grid"
          with opt have o: "astar_opt grid isNaval B start Op C" by simp
          show "astar_opt grid isNaval B start Op2 (insert kc C)"
            by (rule astar_opt_step [OF wf inv o cur low ng' Op2_def])
        qed
        from less [OF st(2) [unfolded m]] st(1) o2 obtain r where
          r: "findPath_loop grid endX endY isNaval B Op2 (insert kc C) = Some r"
            "result_ok grid isNaval B start (key endX endY) r"
          by blast
        have "findPath_loop grid endX endY isNaval B Op C
              = findPath_loop grid endX endY isNaval B Op2 (insert kc C)"
          by (subst findPath_loop.simps) (simp add: False lf ng Op2_def c(1) [symmetric])
        with r show ?thesis by simp
      qed
    qed
  qed
qed

lemma findPath_total:
  "\<exists>r. findPath grid startX startY endX endY isNaval B = Some r
       \<and> result_ok grid isNaval B (key startX startY) (key endX endY) r"
proof -
  define h0 where "h0 = heuristic endX endY startX startY"
  define s where "s = PathNode startX startY 0 h0 h0 None"
  have inv: "astar_inv grid isNaval B (key startX startY) (key endX endY) [(key startX startY, s)] {}"
    unfolding astar_inv_def open_ok_def
    by (auto simp: s_def h0_def heuristic_cheb key_def intro: walk_start)
  have opt: "astar_opt grid isNaval B (key startX startY) [(key startX startY, s)] {}"
    unfolding astar_opt_def open_at_most_def by (simp add: s_def)
  from findPath_loop_total_aux [where grid = grid and start = "key startX startY"
      and m = "card (universe grid (key startX startY) - {})" and isNaval = isNaval and B = B
      and endX = endX and endY = endY] inv opt
  have "\<exists>r. findPath_loop grid endX endY isNaval B [(key startX startY, s)] {} = Some r
       \<and> result_ok grid isNaval B (key startX startY) (key endX endY) r"
    by blast
  then show ?thesis by (simp add: findPath_def Let_def s_def h0_def)
qed

section \<open>No path\<close>

lemma grid3_reach_1:
  "getReachableTiles grid3 0 0 (Some 1) False
     = Some [((0, 0), 0), ((0, 1), 1), ((1, 0), 1), ((1, 1), 1)]"
  by code_simp

lemma grid3_no_walk:
  "\<not> (\<exists>c. walk grid3 False (Some 1) (key 0 0) (key 2 2) c)"
proof
  assume "\<exists>c. walk grid3 False (Some 1) (key 0 0) (key 2 2) c"
  then obtain c where w: "walk grid3 False (Some 1) (key 0 0) (key 2 2) c" by blast
  from getReachableTiles_total [of grid3 0 0 "Some 1" False] grid3_reach_1
  have inv: "reach_inv grid3 False (Some 1) (key 0 0)
       [((0, 0), 0), ((0, 1), 1), ((1, 0), 1), ((1, 1), 1)] []"
    by simp
  from reach_final_complete [OF inv w] show False by (simp add: key_def)
qed

text \<open>
  C8: when no walk from the start reaches the goal within the budget, \<open>findPath\<close>
  returns (the loop terminates; the function has no throwing branch) the empty path, a
  total cost of zero and \<open>reachable = false\<close>.
\<close>

theorem findPath_no_path:
  assumes "\<not> (\<exists>c. walk grid isNaval maxMovement (key startX startY) (key endX endY) c)"
  shows "findPath grid startX startY endX endY isNaval maxMovement
           = Some \<lparr>path = [], totalCost = 0, reachable = False\<rparr>"
proof -
  from findPath_total obtain r where
    r: "findPath grid startX startY endX endY isNaval maxMovement = Some r"
      "result_ok grid isNaval maxMovement (key startX startY) (key endX endY) r"
    by blast
  from r(2) assms have "\<not> reachable r" unfolding result_ok_def by blast
  with r(2) have "r = noPath" unfolding result_ok_def by blast
  with r(1) show ?thesis by (simp add: noPath_def)
qed

theorem findPath_no_path_witness:
  "\<not> (\<exists>c. walk grid3 False (Some 1) (key 0 0) (key 2 2) c)
   \<and> findPath grid3 0 0 2 2 False (Some 1) = Some \<lparr>path = [], totalCost = 0, reachable = False\<rparr>"
  using grid3_no_walk findPath_no_path [OF grid3_no_walk] by simp

section \<open>The two searches agree\<close>

lemma wf_grid3: "wf_grid grid3"
  by (simp add: grid3_def wf_grid_new wf_grid_setTile)

text \<open>
  C1: on every well-formed grid, for every start, budget and domain, \<open>getReachableTiles\<close>
  returns a map, and for every coordinate in that map \<open>findPath\<close> from the same start
  to that coordinate with the same budget and domain reaches it at a total cost equal to
  the cost in the map.
\<close>

theorem reachable_costs_agree:
  assumes wf: "wf_grid grid"
  shows "\<exists>reach. getReachableTiles grid startX startY maxMovement isNaval = Some reach
     \<and> (\<forall>kx ky c. map_of reach (key kx ky) = Some c \<longrightarrow>
          (\<exists>p. findPath grid startX startY kx ky isNaval maxMovement = Some p
               \<and> reachable p \<and> totalCost p = c))"
proof -
  from getReachableTiles_total obtain Rf where
    rf: "getReachableTiles grid startX startY maxMovement isNaval = Some Rf"
    and inv: "reach_inv grid isNaval maxMovement (key startX startY) Rf []"
    by blast
  have "\<forall>kx ky c. map_of Rf (key kx ky) = Some c \<longrightarrow>
          (\<exists>p. findPath grid startX startY kx ky isNaval maxMovement = Some p
               \<and> reachable p \<and> totalCost p = c)"
  proof (intro allI impI)
    fix kx ky c assume e: "map_of Rf (key kx ky) = Some c"
    have w: "walk grid isNaval maxMovement (key startX startY) (key kx ky) c"
      by (rule reach_final_sound [OF inv e])
    from findPath_total obtain p where
      p: "findPath grid startX startY kx ky isNaval maxMovement = Some p"
        "result_ok grid isNaval maxMovement (key startX startY) (key kx ky) p"
      by blast
    from p(2) wf w have re: "reachable p" unfolding result_ok_def by blast
    with p(2) wf w have le: "totalCost p \<le> c"
      and wp: "walk grid isNaval maxMovement (key startX startY) (key kx ky) (totalCost p)"
      unfolding result_ok_def by blast+
    from reach_final_complete [OF inv wp] e have "c \<le> totalCost p" by simp
    with le re p(1) show "\<exists>p. findPath grid startX startY kx ky isNaval maxMovement = Some p
               \<and> reachable p \<and> totalCost p = c"
      by simp
  qed
  with rf show ?thesis by blast
qed

theorem reachable_costs_agree_witness:
  "wf_grid grid3
   \<and> (\<exists>p. findPath grid3 0 0 1 1 False (Some 1) = Some p \<and> reachable p \<and> totalCost p = 1)"
proof -
  from reachable_costs_agree [OF wf_grid3, of 0 0 "Some 1" False] grid3_reach_1
  have "\<forall>kx ky c. map_of [((0, 0), 0), ((0, 1), 1), ((1, 0), 1), ((1, 1), 1)] (key kx ky) = Some c \<longrightarrow>
          (\<exists>p. findPath grid3 0 0 kx ky False (Some 1) = Some p
               \<and> reachable p \<and> totalCost p = c)"
    by simp
  then have "\<exists>p. findPath grid3 0 0 1 1 False (Some 1) = Some p \<and> reachable p \<and> totalCost p = 1"
    by (simp add: key_def)
  with wf_grid3 show ?thesis by simp
qed

section \<open>Valid moves\<close>

lemma fold_keep_lookup:
  "distinct (map fst xs) \<Longrightarrow>
   map_of (fold (\<lambda>(k, cost) filtered. if P k then AList.update k cost filtered else filtered) xs acc) k
     = (case map_of xs k of
          None \<Rightarrow> map_of acc k
        | Some c \<Rightarrow> if P k then Some c else map_of acc k)"
proof (induction xs arbitrary: acc)
  case Nil
  then show ?case by simp
next
  case (Cons p xs)
  obtain k' c' where p: "p = (k', c')" by (cases p)
  from Cons.prems p have d: "distinct (map fst xs)" and nk: "map_of xs k' = None"
    by (auto simp: map_of_eq_None_iff)
  show ?case
  proof (cases "k = k'")
    case True
    with nk p Cons.IH [OF d] show ?thesis by (simp add: update_conv')
  next
    case False
    with p Cons.IH [OF d] show ?thesis by (simp add: update_conv' split: option.splits)
  qed
qed

lemma filterReachable_lookup:
  "distinct (map fst reach) \<Longrightarrow>
   map_of (filterReachable unit allUnits relations reach) k
     = (if keepTile unit allUnits relations k then map_of reach k else None)"
  unfolding filterReachable_def by (simp add: fold_keep_lookup split: option.splits)

lemma getReachableTiles_distinct:
  "getReachableTiles grid sx sy B isNaval = Some reach \<Longrightarrow> distinct (map fst reach)"
  using getReachableTiles_total [of grid sx sy B isNaval]
  by (auto simp: reach_inv_def mid_inv_def)

lemma getReachableTiles_start:
  "\<exists>reach. getReachableTiles grid sx sy B isNaval = Some reach \<and> map_of reach (key sx sy) = Some 0"
  using getReachableTiles_total [of grid sx sy B isNaval] reach_final_start by blast

lemma getValidMoves_known:
  assumes "\<not> hasMoved unit" and "UNIT_TYPES (typeId unit) = Some uType"
    and "getReachableTiles grid (u_x unit) (u_y unit) (Some (movement (stats uType)))
           (category uType = Naval) = Some reach"
  shows "getValidMoves unit grid allUnits relations
    = Some (AList.delete (key (u_x unit) (u_y unit)) (filterReachable unit allUnits relations reach))"
  using assms by (simp add: getValidMoves_def)

lemma getValidMoves_total:
  "\<exists>moves. getValidMoves unit grid allUnits relations = Some moves
      \<and> map_of moves (key (u_x unit) (u_y unit)) = None"
proof (cases "hasMoved unit")
  case True
  then show ?thesis by (simp add: getValidMoves_def)
next
  case False
  show ?thesis
  proof (cases "UNIT_TYPES (typeId unit)")
    case None
    with False show ?thesis by (simp add: getValidMoves_def)
  next
    case (Some uType)
    from getReachableTiles_total obtain reach where
      r: "getReachableTiles grid (u_x unit) (u_y unit) (Some (movement (stats uType)))
           (category uType = Naval) = Some reach" by blast
    show ?thesis unfolding getValidMoves_known [OF False Some r] by (simp add: delete_conv')
  qed
qed

lemma grid3_reach_4:
  "getReachableTiles grid3 0 0 (Some 4) False
     = Some [((0, 0), 0), ((0, 1), 1), ((1, 0), 1), ((1, 1), 1), ((0, 2), 2), ((1, 2), 2),
             ((2, 0), 2), ((2, 1), 2), ((2, 2), 2)]"
  by code_simp

lemma ex_mover_facts:
  "\<not> hasMoved ex_mover" "typeId ex_mover = ''knight''" "u_x ex_mover = 0" "u_y ex_mover = 0"
  by (simp_all add: ex_mover_def ex_unit_def)

lemma ex_mover_type:
  "UNIT_TYPES (typeId ex_mover) = Some (mkUnitType Military 35 10 8 4 1 2 False 0)"
  by (simp add: ex_mover_facts UNIT_TYPES_knight)

lemma ex_mover_reach:
  "getReachableTiles grid3 (u_x ex_mover) (u_y ex_mover)
      (Some (movement (stats (mkUnitType Military 35 10 8 4 1 2 False 0))))
      (category (mkUnitType Military 35 10 8 4 1 2 False 0) = Naval)
     = Some [((0, 0), 0), ((0, 1), 1), ((1, 0), 1), ((1, 1), 1), ((0, 2), 2), ((1, 2), 2),
             ((2, 0), 2), ((2, 1), 2), ((2, 2), 2)]"
  using grid3_reach_4 by (simp add: ex_mover_facts mkUnitType_def)

lemma unitsOnTile_occupies: "unitsOnTile unit allUnits k = filter (occupies unit k) allUnits"
  unfolding unitsOnTile_def occupies_def by (cases k) (simp add: conj_commute conj_left_commute cong: filter_cong)

lemma getRelation_allied:
  "getRelation p q relations = Allied \<longleftrightarrow> allied_with relations p q"
proof (cases "p = q")
  case True
  then show ?thesis by (simp add: getRelation_def allied_with_def)
next
  case False
  show ?thesis
  proof (cases "List.find (\<lambda>r. about r p q) relations")
    case None
    then have "\<forall>r \<in> set relations. \<not> about r p q" by (simp add: find_None_iff)
    then have "\<not> allied_with relations p q" using False unfolding allied_with_def by auto
    moreover from None False have "getRelation p q relations = Neutral"
      unfolding getRelation_def about_def by simp
    ultimately show ?thesis by simp
  next
    case (Some rel)
    then obtain i where i: "i < length relations" "about (relations ! i) p q" "rel = relations ! i"
      "\<forall>j < i. \<not> about (relations ! j) p q" unfolding find_Some_iff by blast
    from Some False have g: "getRelation p q relations = status rel"
      unfolding getRelation_def about_def by simp
    show ?thesis
    proof
      assume "getRelation p q relations = Allied"
      with g i show "allied_with relations p q" unfolding allied_with_def by auto
    next
      assume "allied_with relations p q"
      with False obtain i' where i': "i' < length relations" "about (relations ! i') p q"
        "status (relations ! i') = Allied" "\<forall>j < i'. \<not> about (relations ! j) p q"
        unfolding allied_with_def by auto
      have "i' = i"
      proof (rule ccontr)
        assume "i' \<noteq> i"
        then consider "i' < i" | "i < i'" by linarith
        then show False using i i' by cases blast+
      qed
      with g i i' show "getRelation p q relations = Allied" by simp
    qed
  qed
qed

lemma isAllied_allied_with:
  "isAllied unit relations u \<longleftrightarrow> allied_with relations (u_ownerId unit) (u_ownerId u)"
  unfolding isAllied_def getRelation_allied by (auto simp: allied_with_def)

lemma keepTile_admits: "keepTile unit allUnits relations k \<longleftrightarrow> admits unit allUnits relations k"
proof (cases "filter (occupies unit k) allUnits = []")
  case True
  then have "\<forall>u \<in> set allUnits. \<not> occupies unit k u" by (simp add: filter_empty_conv)
  with True show ?thesis by (simp add: keepTile_def admits_def unitsOnTile_occupies)
next
  case False
  then show ?thesis
    by (auto simp: keepTile_def admits_def unitsOnTile_occupies Let_def list_all_iff
        isAllied_allied_with)
qed

lemma allied_with_single:
  assumes "single_record relations"
  shows "allied_with relations p q
     \<longleftrightarrow> p = q \<or> (\<exists>r \<in> set relations. about r p q \<and> status r = Allied)"
proof
  assume "allied_with relations p q"
  then show "p = q \<or> (\<exists>r \<in> set relations. about r p q \<and> status r = Allied)"
    unfolding allied_with_def by auto
next
  assume "p = q \<or> (\<exists>r \<in> set relations. about r p q \<and> status r = Allied)"
  then show "allied_with relations p q"
  proof
    assume "p = q" then show ?thesis by (simp add: allied_with_def)
  next
    assume "\<exists>r \<in> set relations. about r p q \<and> status r = Allied"
    then obtain i where i: "i < length relations" "about (relations ! i) p q"
      "status (relations ! i) = Allied" by (auto simp: in_set_conv_nth)
    have "\<forall>j < i. \<not> about (relations ! j) p q"
    proof (intro allI impI notI)
      fix j assume j: "j < i" and a: "about (relations ! j) p q"
      from assms i(1) j have "\<not> about (relations ! i) (playerA (relations ! j)) (playerB (relations ! j))"
        unfolding single_record_def by simp
      with a i(2) show False unfolding about_def by auto
    qed
    with i show ?thesis unfolding allied_with_def by auto
  qed
qed

lemma getValidMoves_unknown:
  "UNIT_TYPES (typeId unit) = None \<Longrightarrow> getValidMoves unit grid allUnits relations = Some []"
  by (simp add: getValidMoves_def)

lemma ex_crowd_moves:
  "getValidMoves ex_mover grid3 ex_crowd ex_diplomacy
     = Some [((0, 1), 1), ((1, 0), 1), ((2, 1), 2), ((2, 2), 2)]"
  by code_simp

lemma ex_crowd_occupied:
  "\<exists>u \<in> set ex_crowd. occupies ex_mover (1, 0) u"
  "\<exists>u \<in> set ex_crowd. occupies ex_mover (0, 1) u"
  "\<exists>u \<in> set ex_crowd. occupies ex_mover (1, 1) u"
  "\<exists>u \<in> set ex_crowd. occupies ex_mover (2, 0) u"
  "\<exists>u \<in> set ex_crowd. occupies ex_mover (1, 2) u"
  "\<exists>u \<in> set ex_crowd. occupies ex_mover (0, 2) u"
  by code_simp+

lemma ex_crowd_admits:
  "admits ex_mover ex_crowd ex_diplomacy (1, 0)"
  "admits ex_mover ex_crowd ex_diplomacy (0, 1)"
  "\<not> admits ex_mover ex_crowd ex_diplomacy (1, 1)"
  "\<not> admits ex_mover ex_crowd ex_diplomacy (2, 0)"
  "\<not> admits ex_mover ex_crowd ex_diplomacy (1, 2)"
  "\<not> admits ex_mover ex_crowd ex_diplomacy (0, 2)"
  by code_simp+

text \<open>
  C7: \<open>getValidMoves\<close> always returns; the result is empty if the unit has already
  moved (and for a unit of no known type); it never contains the unit's own tile; and for a
  unit that has not moved a tile is offered at some cost exactly when it is reachable at
  that cost under the unit's movement stat and domain, is not the unit's own tile, and
  admits the unit: every other living unit standing on it belongs to the unit's owner or
  to a player whose relation with the owner is allied, and fewer than 2 such occupants are
  present. The rule is stated with \<open>occupies\<close>, \<open>allied_with\<close> and
  \<open>admits\<close>, not with the tests of the loop body.
\<close>

theorem getValidMoves_rules:
  "\<exists>moves. getValidMoves unit grid allUnits relations = Some moves
     \<and> (hasMoved unit \<longrightarrow> moves = [])
     \<and> (UNIT_TYPES (typeId unit) = None \<longrightarrow> moves = [])
     \<and> map_of moves (key (u_x unit) (u_y unit)) = None
     \<and> (\<forall>uType reach k c.
          \<not> hasMoved unit \<longrightarrow> UNIT_TYPES (typeId unit) = Some uType \<longrightarrow>
          getReachableTiles grid (u_x unit) (u_y unit) (Some (movement (stats uType)))
             (category uType = Naval) = Some reach \<longrightarrow>
          (map_of moves k = Some c
             \<longleftrightarrow> map_of reach k = Some c \<and> k \<noteq> key (u_x unit) (u_y unit)
                  \<and> admits unit allUnits relations k))"
proof -
  from getValidMoves_total obtain moves where
    m: "getValidMoves unit grid allUnits relations = Some moves"
      "map_of moves (key (u_x unit) (u_y unit)) = None" by blast
  have a: "hasMoved unit \<longrightarrow> moves = []" using m(1) by (auto simp: getValidMoves_def)
  have u: "UNIT_TYPES (typeId unit) = None \<longrightarrow> moves = []"
    using m(1) getValidMoves_unknown [of unit grid allUnits relations] by auto
  have b: "\<forall>uType reach k c.
          \<not> hasMoved unit \<longrightarrow> UNIT_TYPES (typeId unit) = Some uType \<longrightarrow>
          getReachableTiles grid (u_x unit) (u_y unit) (Some (movement (stats uType)))
             (category uType = Naval) = Some reach \<longrightarrow>
          (map_of moves k = Some c
             \<longleftrightarrow> map_of reach k = Some c \<and> k \<noteq> key (u_x unit) (u_y unit)
                  \<and> admits unit allUnits relations k)"
  proof (intro allI impI)
    fix uType reach k c
    assume nm: "\<not> hasMoved unit" and ty: "UNIT_TYPES (typeId unit) = Some uType"
      and r: "getReachableTiles grid (u_x unit) (u_y unit) (Some (movement (stats uType)))
             (category uType = Naval) = Some reach"
    from getValidMoves_known [OF nm ty r] m(1) have
      mv: "moves = AList.delete (key (u_x unit) (u_y unit)) (filterReachable unit allUnits relations reach)"
      by simp
    have d: "distinct (map fst reach)" by (rule getReachableTiles_distinct [OF r])
    have look: "map_of moves k
        = (if k = key (u_x unit) (u_y unit) then None
           else if admits unit allUnits relations k then map_of reach k else None)"
      unfolding mv by (simp add: delete_conv' filterReachable_lookup [OF d] keepTile_admits)
    show "map_of moves k = Some c
             \<longleftrightarrow> map_of reach k = Some c \<and> k \<noteq> key (u_x unit) (u_y unit)
                  \<and> admits unit allUnits relations k"
      unfolding look by simp
  qed
  show ?thesis by (intro exI [of _ moves] conjI m a u b)
qed

theorem getValidMoves_rules_witness:
  "\<exists>moves. getValidMoves ex_mover grid3 ex_crowd ex_diplomacy = Some moves
     \<and> moves = [((0, 1), 1), ((1, 0), 1), ((2, 1), 2), ((2, 2), 2)]
     \<and> \<not> hasMoved ex_mover
     \<and> (\<exists>u \<in> set ex_crowd. occupies ex_mover (1, 0) u)
     \<and> admits ex_mover ex_crowd ex_diplomacy (1, 0) \<and> map_of moves (1, 0) = Some 1
     \<and> (\<exists>u \<in> set ex_crowd. occupies ex_mover (0, 1) u)
     \<and> admits ex_mover ex_crowd ex_diplomacy (0, 1) \<and> map_of moves (0, 1) = Some 1
     \<and> (\<exists>u \<in> set ex_crowd. occupies ex_mover (1, 1) u)
     \<and> \<not> admits ex_mover ex_crowd ex_diplomacy (1, 1) \<and> map_of moves (1, 1) \<noteq> Some 1
     \<and> (\<exists>u \<in> set ex_crowd. occupies ex_mover (2, 0) u)
     \<and> \<not> admits ex_mover ex_crowd ex_diplomacy (2, 0) \<and> map_of moves (2, 0) \<noteq> Some 2"
proof -
  from getValidMoves_rules [of ex_mover grid3 ex_crowd ex_diplomacy] obtain moves where
    m: "getValidMoves ex_mover grid3 ex_crowd ex_diplomacy = Some moves"
    and r: "\<forall>uType reach k c.
          \<not> hasMoved ex_mover \<longrightarrow> UNIT_TYPES (typeId ex_mover) = Some uType \<longrightarrow>
          getReachableTiles grid3 (u_x ex_mover) (u_y ex_mover) (Some (movement (stats uType)))
             (category uType = Naval) = Some reach \<longrightarrow>
          (map_of moves k = Some c
             \<longleftrightarrow> map_of reach k = Some c \<and> k \<noteq> key (u_x ex_mover) (u_y ex_mover)
                  \<and> admits ex_mover ex_crowd ex_diplomacy k)"
    by blast
  from r ex_mover_facts(1) ex_mover_type ex_mover_reach
  have iff: "\<And>k c. map_of moves k = Some c
             \<longleftrightarrow> map_of [((0, 0), 0), ((0, 1), 1), ((1, 0), 1), ((1, 1), 1), ((0, 2), 2),
                   ((1, 2), 2), ((2, 0), 2), ((2, 1), 2), ((2, 2), 2)] k = Some c
                 \<and> k \<noteq> key (u_x ex_mover) (u_y ex_mover)
                 \<and> admits ex_mover ex_crowd ex_diplomacy k"
    by blast
  have k: "key (u_x ex_mover) (u_y ex_mover) = (0, 0)" by (simp add: ex_mover_facts key_def)
  have l1: "map_of moves (1, 0) = Some 1" unfolding iff k using ex_crowd_admits(1) by simp
  have l2: "map_of moves (0, 1) = Some 1" unfolding iff k using ex_crowd_admits(2) by simp
  have l3: "map_of moves (1, 1) \<noteq> Some 1" unfolding iff k using ex_crowd_admits(3) by simp
  have l4: "map_of moves (2, 0) \<noteq> Some 2" unfolding iff k using ex_crowd_admits(4) by simp
  from m ex_crowd_moves have e: "moves = [((0, 1), 1), ((1, 0), 1), ((2, 1), 2), ((2, 2), 2)]"
    by simp
  show ?thesis
    by (intro exI [of _ moves] conjI m e ex_mover_facts(1) ex_crowd_occupied(1-4) ex_crowd_admits(1-4)
        l1 l2 l3 l4)
qed

text \<open>
  C10: for every grid, start, budget and domain the map returned by
  \<open>getReachableTiles\<close> contains the start coordinate at cost 0; nothing about the
  tile at the start (its presence, its terrain, the bounds) is consulted. The result of
  \<open>getValidMoves\<close> has no entry for the unit's own tile and agrees on every other
  coordinate with the filtered reachable map, whose underlying reachable map holds the own
  tile at cost 0: the final deletion removes that entry and no other.
\<close>

theorem start_tile_reached_then_removed:
  "(\<exists>reach. getReachableTiles grid startX startY maxMovement isNaval = Some reach
        \<and> map_of reach (key startX startY) = Some 0)
   \<and> (\<exists>moves. getValidMoves unit grid allUnits relations = Some moves
        \<and> map_of moves (key (u_x unit) (u_y unit)) = None
        \<and> (\<forall>uType reach.
              \<not> hasMoved unit \<longrightarrow> UNIT_TYPES (typeId unit) = Some uType \<longrightarrow>
              getReachableTiles grid (u_x unit) (u_y unit) (Some (movement (stats uType)))
                (category uType = Naval) = Some reach \<longrightarrow>
              map_of reach (key (u_x unit) (u_y unit)) = Some 0
              \<and> (\<forall>k. k \<noteq> key (u_x unit) (u_y unit) \<longrightarrow>
                    map_of moves k = map_of (filterReachable unit allUnits relations reach) k)))"
proof -
  from getValidMoves_total obtain moves where
    m: "getValidMoves unit grid allUnits relations = Some moves"
      "map_of moves (key (u_x unit) (u_y unit)) = None" by blast
  have "\<forall>uType reach.
              \<not> hasMoved unit \<longrightarrow> UNIT_TYPES (typeId unit) = Some uType \<longrightarrow>
              getReachableTiles grid (u_x unit) (u_y unit) (Some (movement (stats uType)))
                (category uType = Naval) = Some reach \<longrightarrow>
              map_of reach (key (u_x unit) (u_y unit)) = Some 0
              \<and> (\<forall>k. k \<noteq> key (u_x unit) (u_y unit) \<longrightarrow>
                    map_of moves k = map_of (filterReachable unit allUnits relations reach) k)"
  proof (intro allI impI)
    fix uType reach
    assume nm: "\<not> hasMoved unit" and ty: "UNIT_TYPES (typeId unit) = Some uType"
      and r: "getReachableTiles grid (u_x unit) (u_y unit) (Some (movement (stats uType)))
             (category uType = Naval) = Some reach"
    from getValidMoves_known [OF nm ty r] m(1) have
      mv: "moves = AList.delete (key (u_x unit) (u_y unit)) (filterReachable unit allUnits relations reach)"
      by simp
    from getReachableTiles_start [of grid "u_x unit" "u_y unit" "Some (movement (stats uType))"
        "category uType = Naval"] r
    have s: "map_of reach (key (u_x unit) (u_y unit)) = Some 0" by simp
    have "\<forall>k. k \<noteq> key (u_x unit) (u_y unit) \<longrightarrow>
                    map_of moves k = map_of (filterReachable unit allUnits relations reach) k"
      unfolding mv by (simp add: delete_conv')
    with s show "map_of reach (key (u_x unit) (u_y unit)) = Some 0
              \<and> (\<forall>k. k \<noteq> key (u_x unit) (u_y unit) \<longrightarrow>
                    map_of moves k = map_of (filterReachable unit allUnits relations reach) k)"
      by blast
  qed
  with m getReachableTiles_start [of grid startX startY maxMovement isNaval] show ?thesis by blast
qed

theorem start_tile_reached_then_removed_witness:
  "(\<exists>reach. getReachableTiles grid3 7 7 (Some 0) True = Some reach
        \<and> map_of reach (key 7 7) = Some 0)
   \<and> (\<exists>moves. getValidMoves ex_mover grid3 ex_others [] = Some moves
        \<and> \<not> hasMoved ex_mover
        \<and> map_of moves (key (u_x ex_mover) (u_y ex_mover)) = None
        \<and> map_of moves (1, 1) = map_of (filterReachable ex_mover ex_others []
             [((0, 0), 0), ((0, 1), 1), ((1, 0), 1), ((1, 1), 1), ((0, 2), 2), ((1, 2), 2),
              ((2, 0), 2), ((2, 1), 2), ((2, 2), 2)]) (1, 1))"
proof -
  note t = start_tile_reached_then_removed [where grid = grid3 and startX = 7 and startY = 7
      and maxMovement = "Some 0" and isNaval = True and unit = ex_mover
      and allUnits = ex_others and relations = "[]"]
  from t have a: "\<exists>reach. getReachableTiles grid3 7 7 (Some 0) True = Some reach
        \<and> map_of reach (key 7 7) = Some 0" by blast
  from t obtain moves where
    m: "getValidMoves ex_mover grid3 ex_others [] = Some moves"
      "map_of moves (key (u_x ex_mover) (u_y ex_mover)) = None"
    and r: "\<forall>uType reach.
              \<not> hasMoved ex_mover \<longrightarrow> UNIT_TYPES (typeId ex_mover) = Some uType \<longrightarrow>
              getReachableTiles grid3 (u_x ex_mover) (u_y ex_mover) (Some (movement (stats uType)))
                (category uType = Naval) = Some reach \<longrightarrow>
              map_of reach (key (u_x ex_mover) (u_y ex_mover)) = Some 0
              \<and> (\<forall>k. k \<noteq> key (u_x ex_mover) (u_y ex_mover) \<longrightarrow>
                    map_of moves k = map_of (filterReachable ex_mover ex_others [] reach) k)"
    by blast
  have h2: "((1, 1) :: key) \<noteq> key (u_x ex_mover) (u_y ex_mover)"
    by (simp add: ex_mover_facts key_def)
  from r ex_mover_facts(1) ex_mover_type ex_mover_reach h2
  have "map_of moves (1, 1) = map_of (filterReachable ex_mover ex_others []
             [((0, 0), 0), ((0, 1), 1), ((1, 0), 1), ((1, 1), 1), ((0, 2), 2), ((1, 2), 2),
              ((2, 0), 2), ((2, 1), 2), ((2, 2), 2)]) (1, 1)"
    by blast
  with a m ex_mover_facts(1) show ?thesis by blast
qed

section \<open>The unit invariant through a turn\<close>

lemma UNIT_TYPES_hp_pos: "UNIT_TYPES t = Some ut \<Longrightarrow> 0 < hp (stats ut)"
  by (auto simp: UNIT_TYPES_def UNIT_TYPES_table_def mkUnitType_def split: if_splits)

lemma unit_ok_moveUnit: "unit_ok (moveUnit u tx ty) = unit_ok u"
  by (simp add: unit_ok_def moveUnit_def)

lemma all_ok_update:
  "\<forall>u \<in> set us. unit_ok u \<Longrightarrow> unit_ok x \<Longrightarrow> \<forall>u \<in> set (us[i := x]). unit_ok u"
  using set_update_subset_insert [of us i x] by blast

lemma findIndex_Some: "findIndex P xs = Some i \<Longrightarrow> i < length xs \<and> P (xs ! i)"
proof (induction xs arbitrary: i)
  case Nil
  then show ?case by simp
next
  case (Cons x xs)
  then show ?case by (cases "P x") auto
qed

lemma applyMove_ok:
  assumes "\<forall>u \<in> set us. unit_ok u"
  shows "\<forall>u \<in> set (applyMove action us). unit_ok u"
proof (cases "act_payload action")
  case (MoveAction unitId targetX targetY)
  show ?thesis
  proof (cases "findIndex (\<lambda>u. u_id u = unitId \<and> isAlive u) us")
    case None
    with MoveAction assms show ?thesis by (simp add: applyMove_def)
  next
    case (Some i)
    from findIndex_Some [OF Some] have "us ! i \<in> set us" by simp
    with assms have "unit_ok (moveUnit (us ! i) targetX targetY)" by (simp add: unit_ok_moveUnit)
    from all_ok_update [OF assms this, of i] MoveAction Some assms show ?thesis
      by (simp add: applyMove_def)
  qed
next
  case (BuildAction a b c d)
  with assms show ?thesis by (simp add: applyMove_def)
next
  case OtherAction
  with assms show ?thesis by (simp add: applyMove_def)
qed

lemma movePhase_ok:
  "\<forall>u \<in> set us. unit_ok u \<Longrightarrow> \<forall>u \<in> set (movePhase actions us). unit_ok u"
  unfolding movePhase_def
proof (induction actions arbitrary: us)
  case Nil
  then show ?case by simp
next
  case (Cons a actions)
  from Cons.IH [OF applyMove_ok [OF Cons.prems]] show ?case by simp
qed

lemma combat_result_ok:
  assumes "executeCombat a d aT dT turn sys = Inr (r, sys')"
    and "applyCombatResult a d r = (a', d')"
  shows "unit_ok a' \<and> unit_ok d'"
  using assms
  by (auto simp: executeCombat_def resolve_def applyCombatResult_def unit_ok_def Let_def
      split: option.splits prod.splits if_splits)

lemma combatPhase_ok:
  "combatPhase pairs grid turn us logs sys = Inr (us', logs', sys') \<Longrightarrow>
   \<forall>u \<in> set us. unit_ok u \<Longrightarrow> \<forall>u \<in> set us'. unit_ok u"
proof (induction pairs arbitrary: us logs sys)
  case Nil
  then show ?case by simp
next
  case (Cons p pairs)
  obtain i j where p: "p = (i, j)" by (cases p)
  show ?case
  proof (cases "getTile grid (u_x (us ! i)) (u_y (us ! i))")
    case None
    with Cons.prems(1) p have "combatPhase pairs grid turn us logs sys = Inr (us', logs', sys')"
      by (simp add: Let_def)
    from Cons.IH [OF this Cons.prems(2)] show ?thesis .
  next
    case (Some aTile)
    note a = Some
    show ?thesis
    proof (cases "getTile grid (u_x (us ! j)) (u_y (us ! j))")
      case None
      with a Cons.prems(1) p have "combatPhase pairs grid turn us logs sys = Inr (us', logs', sys')"
        by (simp add: Let_def)
      from Cons.IH [OF this Cons.prems(2)] show ?thesis .
    next
      case (Some dTile)
      show ?thesis
      proof (cases "executeCombat (us ! i) (us ! j) aTile dTile turn sys")
        case (Inl e)
        with a Some Cons.prems(1) p show ?thesis by (simp add: Let_def)
      next
        case (Inr q)
        obtain r sys1 where q: "q = (r, sys1)" by (cases q)
        obtain a' d' where ap: "applyCombatResult (us ! i) (us ! j) r = (a', d')"
          by (cases "applyCombatResult (us ! i) (us ! j) r")
        from Inr q have ex: "executeCombat (us ! i) (us ! j) aTile dTile turn sys = Inr (r, sys1)"
          by simp
        from combat_result_ok [OF ex ap] have ok: "unit_ok a'" "unit_ok d'" by simp_all
        have ok': "\<forall>u \<in> set (us[i := a', j := d']). unit_ok u"
          by (rule all_ok_update [OF all_ok_update [OF Cons.prems(2) ok(1)] ok(2)])
        from a Some ex ap Cons.prems(1) p have
          "combatPhase pairs grid turn (us[i := a', j := d']) (logs @ [r_log r]) sys1
             = Inr (us', logs', sys')"
          by (simp add: Let_def)
        from Cons.IH [OF this ok'] show ?thesis .
      qed
    qed
  qed
qed

lemma sacrifice_ok:
  assumes "\<forall>u \<in> set us. unit_ok u"
  shows "\<forall>u \<in> set (sacrifice sid us). unit_ok u"
proof (cases sid)
  case None
  with assms show ?thesis by (simp add: sacrifice_def)
next
  case (Some s)
  show ?thesis
  proof (cases "s = [] \<or> findIndex (\<lambda>u. u_id u = s) us = None")
    case True
    with Some assms show ?thesis by (auto simp: sacrifice_def)
  next
    case False
    then obtain k where k: "findIndex (\<lambda>u. u_id u = s) us = Some k" and s: "s \<noteq> []" by auto
    have "unit_ok ((us ! k)\<lparr>isAlive := False, currentHp := 0\<rparr>)" by (simp add: unit_ok_def)
    from all_ok_update [OF assms this, of k] Some k s show ?thesis by (simp add: sacrifice_def)
  qed
qed

lemma applyBuild_ok:
  assumes "applyBuild render game action (bs, us, sys) = (bs', us', sys')"
    and "\<forall>u \<in> set us. unit_ok u"
  shows "\<forall>u \<in> set us'. unit_ok u"
proof (cases "act_payload action")
  case (MoveAction a b c)
  with assms show ?thesis by (simp add: applyBuild_def)
next
  case (BuildAction ty px py sid)
  with assms(1) have "us' = sacrifice sid us"
    by (simp add: applyBuild_def split: prod.splits)
  with sacrifice_ok [OF assms(2)] show ?thesis by simp
next
  case OtherAction
  with assms show ?thesis by (simp add: applyBuild_def)
qed

lemma buildPhase_ok:
  "buildPhase render game actions (bs, us, sys) = (bs', us', sys') \<Longrightarrow>
   \<forall>u \<in> set us. unit_ok u \<Longrightarrow> \<forall>u \<in> set us'. unit_ok u"
  unfolding buildPhase_def
proof (induction actions arbitrary: bs us sys)
  case Nil
  then show ?case by simp
next
  case (Cons a actions)
  obtain bs1 us1 sys1 where s: "applyBuild render game a (bs, us, sys) = (bs1, us1, sys1)"
    by (cases "applyBuild render game a (bs, us, sys)")
  from Cons.prems(1) s have "fold (applyBuild render game) actions (bs1, us1, sys1) = (bs', us', sys')"
    by simp
  from Cons.IH [OF this applyBuild_ok [OF s Cons.prems(2)]] show ?case .
qed

lemma reproduceUnit_ok:
  assumes "reproduceUnit render turn unit (born, sys) = (born', sys')"
    and "\<forall>u \<in> set born. unit_ok u"
  shows "\<forall>u \<in> set born'. unit_ok u"
proof (cases "UNIT_TYPES (typeId unit)")
  case None
  with assms show ?thesis by (auto simp: reproduceUnit_def split: if_splits)
next
  case (Some uType)
  from UNIT_TYPES_hp_pos [OF Some] have hp: "0 < hp (stats uType)" .
  from assms Some hp show ?thesis
    by (auto simp: reproduceUnit_def unit_ok_def split: if_splits prod.splits)
qed

lemma processReproduction_ok_aux:
  "fold (reproduceUnit render turn) us (born, sys) = (born', sys') \<Longrightarrow>
   \<forall>u \<in> set born. unit_ok u \<Longrightarrow> \<forall>u \<in> set born'. unit_ok u"
proof (induction us arbitrary: born sys)
  case Nil
  then show ?case by simp
next
  case (Cons x us)
  obtain b1 s1 where s: "reproduceUnit render turn x (born, sys) = (b1, s1)"
    by (cases "reproduceUnit render turn x (born, sys)")
  from Cons.prems(1) s have "fold (reproduceUnit render turn) us (b1, s1) = (born', sys')" by simp
  from Cons.IH [OF this reproduceUnit_ok [OF s Cons.prems(2)]] show ?case .
qed

lemma processReproduction_ok:
  "processReproduction render us turn sys = (born, sys') \<Longrightarrow> \<forall>u \<in> set born. unit_ok u"
  unfolding processReproduction_def using processReproduction_ok_aux [of render turn us "[]"] by simp

lemma monthlyPlayer_ok:
  assumes "monthlyPlayer simulate render game grid us bs ss player (acc, born, msgs, sys)
             = (acc', born', msgs', sys')"
    and "\<forall>u \<in> set born. unit_ok u"
  shows "\<forall>u \<in> set born'. unit_ok u"
proof -
  obtain b1 s1 where p: "processReproduction render
       (filter (\<lambda>u. u_ownerId u = p_id player \<and> isAlive u) us) (currentTurn game) sys = (b1, s1)"
    by (cases "processReproduction render
       (filter (\<lambda>u. u_ownerId u = p_id player \<and> isAlive u) us) (currentTurn game) sys")
  from assms(1) p have "born' = born @ b1" unfolding monthlyPlayer_def Let_def by simp
  with processReproduction_ok [OF p] assms(2) show ?thesis by auto
qed

lemma monthly_fold_ok:
  "fold (monthlyPlayer simulate render game grid us bs ss) players (acc, born, msgs, sys)
     = (acc', born', msgs', sys') \<Longrightarrow>
   \<forall>u \<in> set born. unit_ok u \<Longrightarrow> \<forall>u \<in> set born'. unit_ok u"
proof (induction players arbitrary: acc born msgs sys)
  case Nil
  then show ?case by simp
next
  case (Cons p players)
  obtain a1 b1 m1 s1 where s:
    "monthlyPlayer simulate render game grid us bs ss p (acc, born, msgs, sys) = (a1, b1, m1, s1)"
    by (cases "monthlyPlayer simulate render game grid us bs ss p (acc, born, msgs, sys)")
  from Cons.prems(1) s have
    "fold (monthlyPlayer simulate render game grid us bs ss) players (a1, b1, m1, s1)
       = (acc', born', msgs', sys')" by simp
  from Cons.IH [OF this monthlyPlayer_ok [OF s Cons.prems(2)]] show ?case .
qed

lemma resetUnitsForTurn_ok:
  "\<forall>u \<in> set us. unit_ok u \<Longrightarrow> \<forall>u \<in> set (resetUnitsForTurn us). unit_ok u"
  by (auto simp: resetUnitsForTurn_def unit_ok_def)

lemma ex_turn_units_ok: "\<forall>u \<in> set ex_turn_units. unit_ok u"
  by (simp add: ex_turn_units_def ex_unit_def unit_ok_def)

lemma ex_turn_runs:
  "(case resolveTurn ex_simulate ex_render ex_game [scenarioC_player] ex_turn_units [] [] []
           ex_actions grid3 ex_relations ex_sys_low of
      Inl _ \<Rightarrow> None
    | Inr (res, _) \<Rightarrow>
        Some (map summary (updatedUnits res), map summary (newUnits res),
              map (\<lambda>l. (l_attackerUnitId l, l_defenderUnitId l)) (combatLogs res)))
   = Some ([(''u1'', True, 10), (''k1'', True, 35), (''h2'', False, 0), (''u3'', False, 0),
            (''x4'', False, 0)],
           [(''peasant_0'', True, 10)],
           [(''u1'', ''h2''), (''k1'', ''h2''), (''h2'', ''u3'')])"
  by code_simp

text \<open>
  C9: \<open>resolveTurn\<close> preserves the unit invariant "alive implies positive hit
  points". Whenever the pipeline returns, if every unit of the input collection satisfies
  the invariant, then every unit of the updated collection and every newly created unit
  satisfies it, across movement, combat application, the sacrifices of build actions,
  construction, upgrades, the monthly economy with reproduction, and the reset. That the
  base hit points of every unit type are positive is read off the unit table
  (\<open>UNIT_TYPES_hp_pos\<close>), so it is no hypothesis.
\<close>

theorem resolveTurn_preserves_unit_invariant:
  assumes run: "resolveTurn simulate render game players units buildings settlements armies
                  actions grid relations sys = Inr (res, sys')"
    and ok: "\<forall>u \<in> set units. unit_ok u"
  shows "(\<forall>u \<in> set (updatedUnits res). unit_ok u) \<and> (\<forall>u \<in> set (newUnits res). unit_ok u)"
proof -
  define units1 where "units1 = movePhase actions units"
  have ok1: "\<forall>u \<in> set units1. unit_ok u" unfolding units1_def by (rule movePhase_ok [OF ok])
  obtain units2 logs sys2 where c:
    "combatPhase (findCombatPairs units1 relations) grid (currentTurn game) units1 [] sys
       = Inr (units2, logs, sys2)"
    using run unfolding resolveTurn_def Let_def units1_def
    by (cases "combatPhase (findCombatPairs (movePhase actions units) relations) grid
                 (currentTurn game) (movePhase actions units) [] sys") auto
  have ok2: "\<forall>u \<in> set units2. unit_ok u" by (rule combatPhase_ok [OF c ok1])
  obtain buildings3 units3 sys3 where b:
    "buildPhase render game actions (buildings, units2, sys2) = (buildings3, units3, sys3)"
    by (cases "buildPhase render game actions (buildings, units2, sys2)")
  have ok3: "\<forall>u \<in> set units3. unit_ok u" by (rule buildPhase_ok [OF b ok2])
  obtain buildings4 msgs4 where b4: "fold advanceBuilding buildings3 ([], []) = (buildings4, msgs4)"
    by (cases "fold advanceBuilding buildings3 ([], [])")
  obtain settlements5 msgs5 where s5:
    "fold advanceSettlement settlements ([], msgs4) = (settlements5, msgs5)"
    by (cases "fold advanceSettlement settlements ([], msgs4)")
  define monthly where "monthly \<longleftrightarrow> currentTurn game > 0 \<and> currentTurn game mod turnsPerMonth game = 0"
  obtain players6 born msgs6 sys6 where m:
    "(if monthly
      then fold (monthlyPlayer simulate render game grid units3 buildings4 settlements5)
             players ([], [], msgs5, sys3)
      else (players, [], msgs5, sys3)) = (players6, born, msgs6, sys6)"
    by (cases "(if monthly
      then fold (monthlyPlayer simulate render game grid units3 buildings4 settlements5)
             players ([], [], msgs5, sys3)
      else (players, [], msgs5, sys3))")
  have okb: "\<forall>u \<in> set born. unit_ok u"
  proof (cases monthly)
    case True
    with m have "fold (monthlyPlayer simulate render game grid units3 buildings4 settlements5)
             players ([], [], msgs5, sys3) = (players6, born, msgs6, sys6)" by simp
    from monthly_fold_ok [OF this] show ?thesis by simp
  next
    case False
    with m show ?thesis by simp
  qed
  from run c b b4 s5 m have
    "updatedUnits res = resetUnitsForTurn units3" "newUnits res = born"
    unfolding resolveTurn_def Let_def units1_def monthly_def by auto
  with resetUnitsForTurn_ok [OF ok3] okb show ?thesis by simp
qed

theorem resolveTurn_preserves_unit_invariant_witness:
  "\<exists>res sys'. resolveTurn ex_simulate ex_render ex_game [scenarioC_player] ex_turn_units [] [] []
           ex_actions grid3 ex_relations ex_sys_low = Inr (res, sys')
     \<and> (\<forall>u \<in> set ex_turn_units. unit_ok u)
     \<and> map summary (updatedUnits res)
         = [(''u1'', True, 10), (''k1'', True, 35), (''h2'', False, 0), (''u3'', False, 0),
            (''x4'', False, 0)]
     \<and> map summary (newUnits res) = [(''peasant_0'', True, 10)]
     \<and> (\<forall>u \<in> set (updatedUnits res). unit_ok u) \<and> (\<forall>u \<in> set (newUnits res). unit_ok u)"
proof -
  from ex_turn_runs obtain res sys' where
    r: "resolveTurn ex_simulate ex_render ex_game [scenarioC_player] ex_turn_units [] [] []
           ex_actions grid3 ex_relations ex_sys_low = Inr (res, sys')"
    and n: "map summary (updatedUnits res)
         = [(''u1'', True, 10), (''k1'', True, 35), (''h2'', False, 0), (''u3'', False, 0),
            (''x4'', False, 0)]"
      "map summary (newUnits res) = [(''peasant_0'', True, 10)]"
    by (auto split: sum.splits)
  note inv = resolveTurn_preserves_unit_invariant [OF r ex_turn_units_ok]
  show ?thesis
    by (intro exI [of _ res] exI [of _ sys'] conjI r ex_turn_units_ok n
        conjunct1 [OF inv] conjunct2 [OF inv])
qed

end
